theory Spec2Isabelle
  imports Main "HOL-Library.Sublist"
begin

section \<open>Instants, partitions and the file system\<close>

text \<open>
  A \<^verbatim>\<open>time.Time\<close> of second resolution is modelled by the value of its method
  \<^verbatim>\<open>Unix\<close>, the count of seconds since the Unix epoch, an \<^verbatim>\<open>int64\<close>. The value stores
  the field \<^verbatim>\<open>ext\<close>, the seconds since 1 January of year 1: the count plus
  \<^verbatim>\<open>unixToInternal\<close>, computed in \<^verbatim>\<open>int64\<close> by \<^verbatim>\<open>time.Unix\<close> and so wrapped around.
  \<^verbatim>\<open>Before\<close> and \<^verbatim>\<open>After\<close> compare that field, and \<^verbatim>\<open>Add\<close> adds to it and
  saturates at the last second. The local zone is taken to be UTC, so a calendar day is
  a block of 86400 seconds; \<^verbatim>\<open>Format("2006-01-02")\<close> is modelled by the number of that
  day, which it determines and which determines it.
\<close>

type_synonym Time = int

definition int64 :: "int \<Rightarrow> int" where
  \<comment> \<open>the wrap-around of the arithmetic of \<^verbatim>\<open>int64\<close> (and of \<^verbatim>\<open>int\<close> on a 64-bit platform)\<close>
  "int64 x = (x + 2 ^ 63) mod 2 ^ 64 - 2 ^ 63"

definition unixToInternal :: int where
  "unixToInternal = 62135596800"

definition ext :: "Time \<Rightarrow> int" where
  \<comment> \<open>the field \<^verbatim>\<open>ext\<close> of the value, as \<^verbatim>\<open>unixTime\<close> computes it: \<^verbatim>\<open>sec + unixToInternal\<close>\<close>
  "ext t = int64 (t + unixToInternal)"

definition zeroTime :: Time where
  \<comment> \<open>The zero value \<^verbatim>\<open>time.Time{}\<close>: 1 January of year 1, 00:00:00 UTC, of field \<^verbatim>\<open>ext\<close> 0.\<close>
  "zeroTime = - 62135596800"

definition Before :: "Time \<Rightarrow> Time \<Rightarrow> bool" where
  "Before t u = (ext t < ext u)"

definition After :: "Time \<Rightarrow> Time \<Rightarrow> bool" where
  "After t u = (ext u < ext t)"

definition Add24h :: "Time \<Rightarrow> Time" where
  \<comment> \<open>\<^verbatim>\<open>t.Add(time.Hour * 24)\<close>: \<^verbatim>\<open>addSec\<close> stops at the last second when the sum overflows\<close>
  "Add24h t =
     int64 ((if ext t + 86400 < 2 ^ 63 then ext t + 86400 else 2 ^ 63 - 1) - unixToInternal)"

definition Unix :: "Time \<Rightarrow> int" where
  \<comment> \<open>\<^verbatim>\<open>t.Unix()\<close>\<close>
  "Unix t = t"

definition time_Unix :: "int \<Rightarrow> Time" where
  \<comment> \<open>\<^verbatim>\<open>time.Unix(epoch, 0)\<close>: the value whose count is \<open>epoch\<close>, of field \<open>ext epoch\<close>\<close>
  "time_Unix epoch = epoch"

definition localDay :: "Time \<Rightarrow> int" where
  "localDay t = t div 86400"

text \<open>
  A directory is the pair of the root and the day, a partition file the pair of its
  directory and the file name \<^verbatim>\<open>table + ".log"\<close>.
\<close>

type_synonym dirname = "string \<times> int"
type_synonym filename = "dirname \<times> string"

datatype error =
    EOF
  | ErrNotExist filename
  | ErrPermission filename
  | ErrIO filename
  | ErrInvalid
  | ErrCreatingDir dirname
  | ErrSaveOpen filename
  | ErrReaderOpen filename
  | ErrWritingData
  | ErrInvalidLine string
  | ErrParsingTime string
  | ErrTooLong
  | ErrNoProgress
  | ErrBadReadCount

datatype event =
    EvMkdirAll dirname
  | EvOpen filename
  | EvClose filename
  | EvAppend filename string

text \<open>
  The file system: the content of every existing file, the operations that the
  environment makes fail, and the log of the system calls of the write path.
\<close>

record world =
  files :: "filename \<Rightarrow> string option"
  mkdir_fails :: "dirname \<Rightarrow> bool"
  open_fails :: "filename \<Rightarrow> bool"
  io_fails :: "filename \<Rightarrow> bool"
  syslog :: "event list"

definition os_MkdirAll :: "world \<Rightarrow> dirname \<Rightarrow> error option \<times> world" where
  "os_MkdirAll w d =
     (if mkdir_fails w d then (Some (ErrPermission (d, [])), w)
      else (None, w\<lparr>syslog := syslog w @ [EvMkdirAll d]\<rparr>))"

definition os_OpenAppend :: "world \<Rightarrow> filename \<Rightarrow> error + (filename \<times> world)" where
  \<comment> \<open>\<^verbatim>\<open>os.OpenFile(name, O_APPEND|O_WRONLY|O_CREATE, 0644)\<close>; the handle is named by its file.\<close>
  "os_OpenAppend w p =
     (if open_fails w p then Inl (ErrPermission p)
      else Inr (p, w\<lparr>files := (files w)(p := Some (case files w p of None \<Rightarrow> [] | Some c \<Rightarrow> c)),
                      syslog := syslog w @ [EvOpen p]\<rparr>))"

definition os_Close :: "world \<Rightarrow> filename \<Rightarrow> world" where
  "os_Close w h = w\<lparr>syslog := syslog w @ [EvClose h]\<rparr>"

definition os_Append :: "world \<Rightarrow> filename \<Rightarrow> string \<Rightarrow> error option \<times> world" where
  "os_Append w h s =
     (if io_fails w h then (Some (ErrIO h), w)
      else (None, w\<lparr>files := (files w)(h := Some ((case files w h of None \<Rightarrow> [] | Some c \<Rightarrow> c) @ s)),
                    syslog := syslog w @ [EvAppend h s]\<rparr>))"

definition os_OpenRead :: "world \<Rightarrow> filename \<Rightarrow> error + (filename \<times> nat)" where
  \<comment> \<open>\<^verbatim>\<open>os.OpenFile(path, O_RDONLY, 0644)\<close>; a read handle is a file and a position in it.\<close>
  "os_OpenRead w p =
     (if open_fails w p then Inl (ErrPermission p)
      else
        (case files w p of
           None \<Rightarrow> Inl (ErrNotExist p)
         | Some c \<Rightarrow> Inr (p, 0)))"

definition IsNotExist :: "error \<Rightarrow> bool" where
  "IsNotExist e = (case e of ErrNotExist p \<Rightarrow> True | _ \<Rightarrow> False)"

definition file_Read :: "world \<Rightarrow> (filename \<times> nat) option \<Rightarrow> nat
    \<Rightarrow> string \<times> error option \<times> (filename \<times> nat) option" where
  \<comment> \<open>\<^verbatim>\<open>(*os.File).Read(b)\<close> with \<^verbatim>\<open>len(b) = n\<close>: the bytes read, the error, the handle after.\<close>
  "file_Read w f n =
     (case f of
        None \<Rightarrow> ([], Some ErrInvalid, f)
      | Some (p, pos) \<Rightarrow>
          if io_fails w p then ([], Some (ErrIO p), f)
          else
            (let rest = drop pos (case files w p of None \<Rightarrow> [] | Some c \<Rightarrow> c) in
             if n = 0 then ([], None, f)
             else if rest = [] then ([], Some EOF, f)
             else (take n rest, None, Some (p, pos + length (take n rest)))))"

section \<open>The readers-writer lock\<close>

text \<open>
  In a run of one thread, a \<^verbatim>\<open>Lock\<close> or \<^verbatim>\<open>RLock\<close> that cannot be granted is never
  granted: the call does not return, which is the value \<open>None\<close>.
\<close>

record RWMutex =
  writer :: bool
  readers :: nat

definition Lock :: "RWMutex \<Rightarrow> RWMutex option" where
  "Lock m = (if writer m \<or> 0 < readers m then None else Some (m\<lparr>writer := True\<rparr>))"

definition Unlock :: "RWMutex \<Rightarrow> RWMutex" where
  "Unlock m = m\<lparr>writer := False\<rparr>"

definition RLock :: "RWMutex \<Rightarrow> RWMutex option" where
  "RLock m = (if writer m then None else Some (m\<lparr>readers := readers m + 1\<rparr>))"

definition RUnlock :: "RWMutex \<Rightarrow> RWMutex" where
  "RUnlock m = m\<lparr>readers := readers m - 1\<rparr>"

section \<open>The engine handle\<close>

text \<open>
  The field \<^verbatim>\<open>file\<close> of the handle is named \<open>db_file\<close> here; a file handle is named by
  the file it is open on.
\<close>

record DB =
  Path :: string
  mutex :: RWMutex
  db_file :: "filename option"
  writePath :: "filename option"

definition New :: "string \<Rightarrow> DB" where
  "New path = \<lparr>Path = path, mutex = \<lparr>writer = False, readers = 0\<rparr>, db_file = None, writePath = None\<rparr>"

definition getDir :: "DB \<Rightarrow> Time \<Rightarrow> dirname" where
  "getDir db t = (Path db, localDay t)"

definition getTablePath :: "DB \<Rightarrow> Time \<Rightarrow> string \<Rightarrow> filename" where
  "getTablePath db t table = (getDir db t, table @ ''.log'')"

section \<open>The record codec\<close>

definition digitChar :: "nat \<Rightarrow> char" where
  "digitChar d = ''0123456789'' ! d"

definition isDigit :: "char \<Rightarrow> bool" where
  "isDigit c = (48 \<le> (of_char c :: nat) \<and> (of_char c :: nat) \<le> 57)"

definition digitVal :: "char \<Rightarrow> nat" where
  "digitVal c = of_char c - 48"

fun digits :: "nat \<Rightarrow> string" where
  "digits n = (if n < 10 then [digitChar n] else digits (n div 10) @ [digitChar (n mod 10)])"

declare digits.simps [simp del]

definition fmt_d :: "int \<Rightarrow> string" where
  \<comment> \<open>the verb \<^verbatim>\<open>%d\<close> of \<^verbatim>\<open>fmt\<close> on an \<^verbatim>\<open>int64\<close>\<close>
  "fmt_d n = (if n < 0 then CHR ''-'' # digits (nat (- n)) else digits (nat n))"

definition encode :: "Time \<Rightarrow> string \<Rightarrow> string" where
  \<comment> \<open>\<^verbatim>\<open>fmt.Fprintf(db.file, "%d %s\n", t.Unix(), data)\<close>\<close>
  "encode t data = fmt_d (Unix t) @ '' '' @ data @ [CHR 0x0A]"

datatype num_error = ErrSyntax | ErrRange

fun parseDigits :: "nat \<Rightarrow> string \<Rightarrow> num_error + nat" where
  "parseDigits n [] = Inr n"
| "parseDigits n (c # cs) =
     (if \<not> isDigit c then Inl ErrSyntax
      else if 2 ^ 64 \<le> n * 10 + digitVal c then Inl ErrRange
      else parseDigits (n * 10 + digitVal c) cs)"

definition ParseUint :: "string \<Rightarrow> num_error + nat" where
  "ParseUint s = (if s = [] then Inl ErrSyntax else parseDigits 0 s)"

definition ParseInt :: "string \<Rightarrow> num_error + int" where
  \<comment> \<open>\<^verbatim>\<open>strconv.ParseInt(s, 10, 64)\<close>\<close>
  "ParseInt s =
     (if s = [] then Inl ErrSyntax
      else
        (let neg = (hd s = CHR ''-'');
             s' = (if hd s = CHR ''+'' \<or> hd s = CHR ''-'' then tl s else s)
         in case ParseUint s' of
              Inl e \<Rightarrow> Inl e
            | Inr un \<Rightarrow>
                if \<not> neg \<and> 2 ^ 63 \<le> un then Inl ErrRange
                else if neg \<and> 2 ^ 63 < un then Inl ErrRange
                else Inr (if neg then - int un else int un)))"

fun IndexByte :: "string \<Rightarrow> char \<Rightarrow> nat option" where
  \<comment> \<open>the first position of the byte, \<open>None\<close> for Go's \<open>-1\<close>\<close>
  "IndexByte [] c = None"
| "IndexByte (x # xs) c = (if x = c then Some 0 else map_option Suc (IndexByte xs c))"

fun Contains :: "string \<Rightarrow> string \<Rightarrow> bool" where
  \<comment> \<open>\<^verbatim>\<open>strings.Contains(s, substr)\<close>\<close>
  "Contains [] sub = (sub = [])"
| "Contains (x # xs) sub = (prefix sub (x # xs) \<or> Contains xs sub)"

record DataPoint =
  Time :: Time
  Text :: string

definition zeroDataPoint :: DataPoint where
  \<comment> \<open>\<^verbatim>\<open>DataPoint{}\<close>\<close>
  "zeroDataPoint = \<lparr>Time = zeroTime, Text = []\<rparr>"

definition decode :: "string \<Rightarrow> error + DataPoint" where
  \<comment> \<open>the part of \<^verbatim>\<open>Scanner.Data\<close> after the check of the tokenizer's error\<close>
  "decode line =
     (case IndexByte line CHR '' '' of
        None \<Rightarrow> Inl (ErrInvalidLine line)
      | Some i \<Rightarrow>
          (case ParseInt (take i line) of
             Inl e \<Rightarrow> Inl (ErrParsingTime line)
           | Inr epoch \<Rightarrow> Inr \<lparr>Time = time_Unix epoch, Text = drop i line\<rparr>))"

section \<open>The write path\<close>

definition save_append :: "Time \<Rightarrow> string \<Rightarrow> DB \<times> world \<Rightarrow> error option \<times> DB \<times> world" where
  \<comment> \<open>lines 300 to 305 of \<^verbatim>\<open>save\<close>: the append, then the only \<^verbatim>\<open>Unlock\<close>\<close>
  "save_append t data s =
     (let (db, w) = s in
      case db_file db of
        None \<Rightarrow> (Some ErrWritingData, db, w)
      | Some f \<Rightarrow>
          (case os_Append w f (encode t data) of
             (Some e, w') \<Rightarrow> (Some ErrWritingData, db, w')
           | (None, w') \<Rightarrow> (None, db\<lparr>mutex := Unlock (mutex db)\<rparr>, w')))"

definition save :: "Time \<Rightarrow> string \<Rightarrow> string \<Rightarrow> DB \<times> world \<Rightarrow> (error option \<times> DB \<times> world) option" where
  "save t table data s =
     (let (db0, w0) = s;
          dirName = getDir db0 t;
          fileName = getTablePath db0 t table
      in case Lock (mutex db0) of
           None \<Rightarrow> None
         | Some m \<Rightarrow>
             (let db1 = db0\<lparr>mutex := m\<rparr> in
              if db_file db1 = None \<or> writePath db1 \<noteq> Some fileName then
                (let (db2, w2) =
                       (case db_file db1 of
                          Some f \<Rightarrow> (db1\<lparr>db_file := None\<rparr>, os_Close w0 f)
                        | None \<Rightarrow> (db1, w0))
                 in case os_MkdirAll w2 dirName of
                      (Some e, w3) \<Rightarrow> Some (Some (ErrCreatingDir dirName), db2, w3)
                    | (None, w3) \<Rightarrow>
                        (case os_OpenAppend w3 fileName of
                           Inl e \<Rightarrow> Some (Some (ErrSaveOpen fileName), db2, w3)
                         | Inr (f, w4) \<Rightarrow>
                             Some (save_append t data
                                     (db2\<lparr>db_file := Some f, writePath := Some fileName\<rparr>, w4))))
              else Some (save_append t data (db1, w0))))"

definition Insert :: "Time \<Rightarrow> string \<Rightarrow> string \<Rightarrow> DB \<times> world \<Rightarrow> (error option \<times> DB \<times> world) option" where
  "Insert t table data s = save t table data s"

definition Save :: "Time \<Rightarrow> string \<Rightarrow> string \<Rightarrow> DB \<times> world \<Rightarrow> (error option \<times> DB \<times> world) option" where
  \<comment> \<open>\<^verbatim>\<open>Save\<close> is \<^verbatim>\<open>save\<close> at \<^verbatim>\<open>time.Now()\<close>, here the argument \<open>now\<close>\<close>
  "Save now table data s = save now table data s"

section \<open>The chunked multi-file reader\<close>

record reader =
  table :: string
  start :: Time
  endT :: Time
  offset :: int
  limit :: int
  index :: int
  filterS :: string
  current :: Time
  r_file :: "(filename \<times> nat) option"
  keepFile :: bool
  buf :: string

definition reader_Close :: "reader \<Rightarrow> reader" where
  "reader_Close r = (case r_file r of Some f \<Rightarrow> r\<lparr>r_file := None\<rparr> | None \<Rightarrow> r)"

definition reader_open :: "DB \<Rightarrow> world \<Rightarrow> reader \<Rightarrow> Time \<Rightarrow> (error + (filename \<times> nat)) \<times> reader" where
  "reader_open db w r t =
     (let r1 = reader_Close r;
          path = getTablePath db t (table r1)
      in case os_OpenRead w path of
           Inl e \<Rightarrow> if IsNotExist e then (Inl e, r1) else (Inl (ErrReaderOpen path), r1)
         | Inr f \<Rightarrow> (Inr f, r1))"

text \<open>
  The loops of \<^verbatim>\<open>nextFile\<close> and \<^verbatim>\<open>Read\<close> are written as they are in the source, with no
  bound on their rounds: a call that never leaves its loop has the value \<open>None\<close>. It
  can happen at the last second of \<^verbatim>\<open>time.Time\<close>, where \<^verbatim>\<open>Add\<close> no longer advances and
  the instant is never after the end. The fields \<^verbatim>\<open>end\<close>, \<^verbatim>\<open>filter\<close> and \<^verbatim>\<open>file\<close> of
  the reader are named \<open>endT\<close>, \<open>filterS\<close> and \<open>r_file\<close> here.
\<close>

partial_function (option) nextFile :: "DB \<Rightarrow> world \<Rightarrow> reader \<Rightarrow> (error option \<times> reader) option" where
  "nextFile db w r =
     (let r1 = r\<lparr>current := (if Before (current r) (start r) then start r else Add24h (current r))\<rparr>
      in if After (current r1) (endT r1) then Some (Some EOF, r1)
         else
           (case reader_open db w r1 (current r1) of
              (Inl e, r2) \<Rightarrow> if IsNotExist e then nextFile db w r2 else Some (Some e, r2)
            | (Inr f, r2) \<Rightarrow> Some (None, r2\<lparr>r_file := Some f\<rparr>)))"

definition file_rest :: "world \<Rightarrow> (filename \<times> nat) option \<Rightarrow> string" where
  "file_rest w f =
     (case f of None \<Rightarrow> []
      | Some (p, pos) \<Rightarrow> drop pos (case files w p of None \<Rightarrow> [] | Some c \<Rightarrow> c))"

partial_function (option) Read_loop :: "DB \<Rightarrow> world \<Rightarrow> reader \<Rightarrow> nat
    \<Rightarrow> (string \<times> error option \<times> reader) option" where
  "Read_loop db w r l =
     (if l \<le> length (buf r) then Some (take l (buf r), None, r\<lparr>buf := drop l (buf r)\<rparr>)
      else
        (case (if \<not> keepFile r then nextFile db w r else Some (None, r)) of
           None \<Rightarrow> None
         | Some (Some err, r1) \<Rightarrow> Some ((if err = EOF then take l (buf r1) else []), Some err, r1)
         | Some (None, r1) \<Rightarrow>
             (case file_Read w (r_file r1) l of
                (b, e, f) \<Rightarrow>
                  if e = Some EOF then
                    Read_loop db w (r1\<lparr>r_file := f, keepFile := False, buf := buf r1 @ b\<rparr>) l
                  else if e \<noteq> None then Some ([], e, r1\<lparr>r_file := f\<rparr>)
                  else Read_loop db w (r1\<lparr>r_file := f, keepFile := True, buf := buf r1 @ b\<rparr>) l)))"

lemma reader_open_fields:
  "reader_open db w r t = (x, r') \<Longrightarrow>
     current r' = current r \<and> start r' = start r \<and> endT r' = endT r \<and> table r' = table r
     \<and> keepFile r' = keepFile r \<and> buf r' = buf r \<and> offset r' = offset r \<and> limit r' = limit r
     \<and> index r' = index r \<and> filterS r' = filterS r \<and> r_file r' = None"
  by (auto simp: reader_open_def reader_Close_def Let_def split: sum.splits option.splits if_splits)

definition Read :: "DB \<Rightarrow> world \<Rightarrow> reader \<Rightarrow> nat \<Rightarrow> (string \<times> error option \<times> reader) option" where
  "Read db w r l =
     (case RLock (mutex db) of
        None \<Rightarrow> None
      | Some m \<Rightarrow> Read_loop db w r l)"

section \<open>The line tokenizer\<close>

definition maxCapacity :: nat where
  "maxCapacity = 512 * 1024"

definition dropCR :: "string \<Rightarrow> string" where
  "dropCR data = (if data \<noteq> [] \<and> last data = CHR 0x0D then butlast data else data)"

definition ScanLines :: "string \<Rightarrow> bool \<Rightarrow> nat \<times> string option" where
  "ScanLines data atEOF =
     (if atEOF \<and> data = [] then (0, None)
      else
        (case IndexByte data (CHR 0x0A) of
           Some i \<Rightarrow> (i + 1, Some (dropCR (take i data)))
         | None \<Rightarrow> if atEOF then (length data, Some (dropCR data)) else (0, None)))"

record bufio_Scanner =
  sbuf :: string
  sstart :: nat
  serr :: "error option"
  stoken :: string

definition NewScanner :: bufio_Scanner where
  "NewScanner = \<lparr>sbuf = [], sstart = 0, serr = None, stoken = []\<rparr>"

definition setErr :: "bufio_Scanner \<Rightarrow> error \<Rightarrow> bufio_Scanner" where
  "setErr sc e = (if serr sc = None \<or> serr sc = Some EOF then sc\<lparr>serr := Some e\<rparr> else sc)"

definition Err :: "bufio_Scanner \<Rightarrow> error option" where
  "Err sc = (if serr sc = Some EOF then None else serr sc)"

fun read_retry :: "nat \<Rightarrow> DB \<Rightarrow> world \<Rightarrow> bufio_Scanner \<times> reader \<Rightarrow> (bufio_Scanner \<times> reader) option" where
  "read_retry 0 db w (sc, r) = Some (setErr sc ErrNoProgress, r)"
| "read_retry (Suc k) db w (sc, r) =
     (case Read db w r (maxCapacity - (sstart sc + length (sbuf sc))) of
        None \<Rightarrow> None
      | Some (b, e, r') \<Rightarrow>
          if maxCapacity - (sstart sc + length (sbuf sc)) < length b then
            Some (setErr sc ErrBadReadCount, r')
          else
            (case e of
               Some err \<Rightarrow> Some (setErr (sc\<lparr>sbuf := sbuf sc @ b\<rparr>) err, r')
             | None \<Rightarrow>
                 if 0 < length b then Some (sc\<lparr>sbuf := sbuf sc @ b\<rparr>, r')
                 else read_retry k db w (sc\<lparr>sbuf := sbuf sc @ b\<rparr>, r')))"

definition split_step :: "bufio_Scanner \<Rightarrow> string option \<times> bufio_Scanner" where
  "split_step sc =
     (if sbuf sc \<noteq> [] \<or> serr sc \<noteq> None then
        (case ScanLines (sbuf sc) (serr sc \<noteq> None) of
           (adv, tok) \<Rightarrow>
             (tok, sc\<lparr>sbuf := drop adv (sbuf sc), sstart := sstart sc + adv,
                      stoken := (case tok of None \<Rightarrow> [] | Some t \<Rightarrow> t)\<rparr>))
      else (None, sc))"

definition shift :: "bufio_Scanner \<Rightarrow> bufio_Scanner" where
  "shift sc =
     (if 0 < sstart sc \<and> (sstart sc + length (sbuf sc) = maxCapacity \<or> maxCapacity div 2 < sstart sc)
      then sc\<lparr>sstart := 0\<rparr> else sc)"

definition room :: "bufio_Scanner \<Rightarrow> nat" where
  "room sc = (if serr sc = None then 1 + (maxCapacity - length (sbuf sc)) else 0)"

lemma room_grow:
  "a \<noteq> [] \<Longrightarrow> s + n < c \<Longrightarrow> \<not> c - (s + n) < length a \<Longrightarrow> c - (n + length a) < c - (n :: nat)"
  by (cases a) auto

lemma read_retry_room:
  "read_retry k db w (sc, r) = Some (sc', r') \<Longrightarrow> serr sc = None
     \<Longrightarrow> sstart sc + length (sbuf sc) < maxCapacity \<Longrightarrow> room sc' < room sc"
proof (induction k arbitrary: sc r)
  case 0
  then show ?case by (auto simp: setErr_def room_def)
next
  case (Suc k)
  from Suc.prems show ?case
    by (auto simp: setErr_def room_def room_grow split: option.splits if_splits dest!: Suc.IH)
qed

lemma split_step_None:
  "split_step sc = (None, sc1) \<Longrightarrow> serr sc1 = None \<Longrightarrow> sbuf sc1 = sbuf sc \<and> serr sc = None"
  by (auto simp: split_step_def ScanLines_def split: if_splits option.splits prod.splits)

lemma room_shift [simp]: "room (shift sc) = room sc" "serr (shift sc) = serr sc" "sbuf (shift sc) = sbuf sc"
  by (simp_all add: room_def shift_def)

function sc_Scan :: "DB \<Rightarrow> world \<Rightarrow> bufio_Scanner \<times> reader \<Rightarrow> (bool \<times> bufio_Scanner \<times> reader) option" where
  "sc_Scan db w (sc, r) =
     (case split_step sc of
        (Some t, sc1) \<Rightarrow> Some (True, sc1, r)
      | (None, sc1) \<Rightarrow>
          if serr sc1 \<noteq> None then Some (False, sc1\<lparr>sbuf := [], sstart := 0\<rparr>, r)
          else if maxCapacity \<le> sstart (shift sc1) + length (sbuf (shift sc1)) then
            Some (False, setErr (shift sc1) ErrTooLong, r)
          else
            (case read_retry 101 db w (shift sc1, r) of
               None \<Rightarrow> None
             | Some (sc2, r2) \<Rightarrow> sc_Scan db w (sc2, r2)))"
  by pat_completeness auto
termination
proof (relation "measure (\<lambda>(db, w, sc, r). room sc)", goal_cases)
  case 1
  show ?case by simp
next
  case (2 db w sc r x y x2 xa ya)
  from 2 have sp: "split_step sc = (None, y)" by simp
  from 2 have e: "serr y = None" by simp
  from split_step_None [OF sp e] have same: "room y = room sc"
    by (simp add: room_def e)
  from 2 have nf: "sstart (shift y) + length (sbuf (shift y)) < maxCapacity"
    by simp
  from 2 have rr: "read_retry 101 db w (shift y, r) = Some (xa, ya)" by simp
  from read_retry_room [OF rr _ nf] e same show ?case by simp
qed

declare sc_Scan.simps [simp del]

section \<open>The record scanner\<close>

record Scanner =
  reader :: reader
  scanner :: bufio_Scanner
  Error :: "error option"

definition Data :: "Scanner \<Rightarrow> DataPoint \<times> Scanner" where
  "Data s =
     (let line = stoken (scanner s) in
      case Err (scanner s) of
        Some err \<Rightarrow> (zeroDataPoint, s\<lparr>Error := Some err\<rparr>)
      | None \<Rightarrow>
          (case decode line of
             Inl err \<Rightarrow> (zeroDataPoint, s\<lparr>Error := Some err\<rparr>)
           | Inr d \<Rightarrow> (d, s)))"

definition bump :: "Scanner \<Rightarrow> Scanner" where
  \<comment> \<open>\<^verbatim>\<open>r.index++\<close>\<close>
  "bump s = s\<lparr>reader := (reader s)\<lparr>index := int64 (index (reader s) + 1)\<rparr>\<rparr>"

partial_function (option) Scan :: "DB \<Rightarrow> world \<Rightarrow> Scanner \<Rightarrow> (bool \<times> Scanner) option" where
  "Scan db w s =
     (if 0 < limit (reader s) \<and> limit (reader s) \<le> index (reader s) then Some (False, s)
      else
        (case sc_Scan db w (scanner s, reader s) of
           None \<Rightarrow> None
         | Some (ok, sc, r) \<Rightarrow>
             if \<not> ok then Some (False, s\<lparr>reader := r, scanner := sc\<rparr>)
             else
               (case Data (s\<lparr>reader := r, scanner := sc\<rparr>) of
                  (d, s1) \<Rightarrow>
                    if Before (Time d) (start (reader s1)) then Scan db w s1
                    else if filterS (reader s1) \<noteq> []
                            \<and> \<not> Contains (stoken (scanner s1)) (filterS (reader s1)) then Scan db w s1
                    else if index (reader s1) < offset (reader s1) then Scan db w (bump s1)
                    else Some (True, bump s1))))"

definition Scanner_Close :: "Scanner \<Rightarrow> Scanner" where
  "Scanner_Close s = s\<lparr>reader := reader_Close (reader s)\<rparr>"

definition SetFilter :: "Scanner \<Rightarrow> string \<Rightarrow> Scanner" where
  "SetFilter s v = s\<lparr>reader := (reader s)\<lparr>filterS := v\<rparr>\<rparr>"

definition db_reader :: "Time \<Rightarrow> Time \<Rightarrow> string \<Rightarrow> int \<Rightarrow> int \<Rightarrow> reader" where
  "db_reader st en tbl off lim =
     \<lparr>table = tbl, start = st, endT = en, offset = off, limit = lim, index = 0, filterS = [],
      current = zeroTime, r_file = None, keepFile = False, buf = []\<rparr>"

definition Query :: "string \<Rightarrow> Time \<Rightarrow> Time \<Rightarrow> int \<Rightarrow> int \<Rightarrow> Scanner" where
  "Query tbl st en off sz =
     \<lparr>reader = db_reader st en tbl off (int64 (off + sz)), scanner = NewScanner, Error = None\<rparr>"

fun scan_loop :: "nat \<Rightarrow> DB \<Rightarrow> world \<Rightarrow> Scanner \<Rightarrow> (DataPoint list \<times> bool \<times> Scanner) option" where
  "scan_loop 0 db w s = Some ([], False, s)"
| "scan_loop (Suc k) db w s =
     (case Scan db w s of
        None \<Rightarrow> None
      | Some (ok, s1) \<Rightarrow>
          if \<not> ok then Some ([], True, s1)
          else
            (case Data s1 of
               (d, s2) \<Rightarrow>
                 (case scan_loop k db w s2 of
                    None \<Rightarrow> None
                  | Some (ds, fin, s3) \<Rightarrow> Some (d # ds, fin, s3))))"

section \<open>Runs of the write path\<close>

text \<open>
  A caller's sequence of \<^verbatim>\<open>Insert\<close> calls on one handle; a call that never returns
  ends the run. The log of the world tells which handles were open at each moment.
\<close>

fun saves :: "(Time \<times> string \<times> string) list \<Rightarrow> DB \<times> world
    \<Rightarrow> (error option list \<times> DB \<times> world) option" where
  "saves [] s = Some ([], s)"
| "saves ((t, tbl, data) # ops) s =
     (case save t tbl data s of
        None \<Rightarrow> None
      | Some (e, s') \<Rightarrow>
          (case saves ops s' of
             None \<Rightarrow> None
           | Some (es, s'') \<Rightarrow> Some (e # es, s'')))"

fun open_count :: "nat \<Rightarrow> event list \<Rightarrow> nat" where
  "open_count n [] = n"
| "open_count n (EvOpen p # es) = open_count (n + 1) es"
| "open_count n (EvClose p # es) = open_count (n - 1) es"
| "open_count n (EvMkdirAll d # es) = open_count n es"
| "open_count n (EvAppend p s # es) = open_count n es"

fun handles_ok :: "nat \<Rightarrow> event list \<Rightarrow> bool" where
  "handles_ok n [] = True"
| "handles_ok n (EvOpen p # es) = (n = 0 \<and> handles_ok 1 es)"
| "handles_ok n (EvClose p # es) = (n = 1 \<and> handles_ok 0 es)"
| "handles_ok n (EvMkdirAll d # es) = handles_ok n es"
| "handles_ok n (EvAppend p s # es) = handles_ok n es"

fun is_open :: "event \<Rightarrow> bool" where
  "is_open (EvOpen p) = True"
| "is_open e = False"

fun is_close :: "event \<Rightarrow> bool" where
  "is_close (EvClose p) = True"
| "is_close e = False"

definition count_opens :: "event list \<Rightarrow> nat" where
  "count_opens es = length (filter is_open es)"

definition count_closes :: "event list \<Rightarrow> nat" where
  "count_closes es = length (filter is_close es)"

fun switches :: "filename option \<Rightarrow> filename list \<Rightarrow> nat" where
  "switches cur [] = 0"
| "switches cur (p # ps) = (if cur = Some p then 0 else 1) + switches (Some p) ps"

definition target :: "string \<Rightarrow> Time \<times> string \<times> string \<Rightarrow> filename" where
  "target root op = (case op of (t, tbl, data) \<Rightarrow> getTablePath (New root) t tbl)"

definition nopen :: "DB \<Rightarrow> nat" where
  "nopen db = (case db_file db of None \<Rightarrow> 0 | Some f \<Rightarrow> 1)"

definition cur_handle :: "DB \<Rightarrow> filename option" where
  "cur_handle db = (if db_file db = None then None else writePath db)"

definition w_ok :: world where
  "w_ok = \<lparr>files = (\<lambda>p. None), mkdir_fails = (\<lambda>d. False), open_fails = (\<lambda>p. False),
           io_fails = (\<lambda>p. False), syslog = []\<rparr>"


section \<open>Properties of the write path\<close>

lemma handles_ok_append:
  "handles_ok n (xs @ ys) = (handles_ok n xs \<and> handles_ok (open_count n xs) ys)"
  by (induction n xs rule: handles_ok.induct) auto

lemma open_count_append: "open_count n (xs @ ys) = open_count (open_count n xs) ys"
  by (induction n xs rule: open_count.induct) auto

lemma handles_ok_bound: "handles_ok n es \<Longrightarrow> n \<le> 1 \<Longrightarrow> open_count n (take k es) \<le> 1"
proof (induction n es arbitrary: k rule: handles_ok.induct)
  case (1 n)
  then show ?case by simp
next
  case (2 n p es)
  then show ?case by (cases k) auto
next
  case (3 n p es)
  then show ?case by (cases k) auto
next
  case (4 n d es)
  then show ?case by (cases k) auto
next
  case (5 n p s es)
  then show ?case by (cases k) auto
qed

text \<open>What one call appends to the log.\<close>

lemma save_events:
  assumes "save t tbl data (db, w) = Some (e, db', w')"
  shows "\<exists>evs. syslog w' = syslog w @ evs \<and> handles_ok (nopen db) evs
           \<and> open_count (nopen db) evs = nopen db' \<and> Path db' = Path db
           \<and> (e = None \<longrightarrow>
                 count_opens evs = (if db_file db = None \<or> writePath db \<noteq> Some (getTablePath db t tbl) then 1 else 0)
               \<and> count_closes evs = (if db_file db = None \<or> writePath db = Some (getTablePath db t tbl) then 0 else 1)
               \<and> db_file db' \<noteq> None \<and> writePath db' = Some (getTablePath db t tbl))"
  using assms
  by (auto simp: save_def save_append_def os_MkdirAll_def os_OpenAppend_def os_Close_def os_Append_def
        Let_def nopen_def count_opens_def count_closes_def getTablePath_def getDir_def
      split: option.splits if_splits prod.splits sum.splits)

lemma target_Path: "Path db = root \<Longrightarrow> getTablePath db t tbl = target root (t, tbl, data)"
  by (simp add: target_def getTablePath_def getDir_def New_def)

lemma saves_events:
  assumes "saves ops (db, w) = Some (es, db', w')"
  shows "\<exists>evs. syslog w' = syslog w @ evs \<and> handles_ok (nopen db) evs
           \<and> open_count (nopen db) evs = nopen db'
           \<and> (list_all (\<lambda>e. e = None) es \<longrightarrow>
                 count_opens evs = switches (cur_handle db) (map (target (Path db)) ops)
               \<and> count_closes evs = count_opens evs - (if db_file db = None then 1 else 0))"
  using assms
proof (induction ops arbitrary: db w es)
  case Nil
  then show ?case by (simp add: count_opens_def count_closes_def)
next
  case (Cons op ops)
  obtain t tbl data where op: "op = (t, tbl, data)" by (cases op) auto
  from Cons.prems op obtain e db1 w1 es1 where
    one: "save t tbl data (db, w) = Some (e, db1, w1)" and
    rest: "saves ops (db1, w1) = Some (es1, db', w')" and es: "es = e # es1"
    by (auto split: option.splits prod.splits)
  from save_events [OF one] obtain evs1 where
    l1: "syslog w1 = syslog w @ evs1" and h1: "handles_ok (nopen db) evs1" and
    c1: "open_count (nopen db) evs1 = nopen db1" and p1: "Path db1 = Path db" and
    s1: "e = None \<longrightarrow>
           count_opens evs1 = (if db_file db = None \<or> writePath db \<noteq> Some (getTablePath db t tbl) then 1 else 0)
         \<and> count_closes evs1 = (if db_file db = None \<or> writePath db = Some (getTablePath db t tbl) then 0 else 1)
         \<and> db_file db1 \<noteq> None \<and> writePath db1 = Some (getTablePath db t tbl)"
    by blast
  from Cons.IH [OF rest] obtain evs2 where
    l2: "syslog w' = syslog w1 @ evs2" and h2: "handles_ok (nopen db1) evs2" and
    c2: "open_count (nopen db1) evs2 = nopen db'" and
    s2: "list_all (\<lambda>e. e = None) es1 \<longrightarrow>
           count_opens evs2 = switches (cur_handle db1) (map (target (Path db1)) ops)
         \<and> count_closes evs2 = count_opens evs2 - (if db_file db1 = None then 1 else 0)"
    by blast
  have tp: "getTablePath db t tbl = target (Path db) op"
    by (simp add: op target_Path)
  have "syslog w' = syslog w @ (evs1 @ evs2)" using l1 l2 by simp
  moreover have "handles_ok (nopen db) (evs1 @ evs2)"
    using h1 h2 c1 by (simp add: handles_ok_append)
  moreover have "open_count (nopen db) (evs1 @ evs2) = nopen db'"
    using c1 c2 by (simp add: open_count_append)
  moreover have "list_all (\<lambda>e. e = None) es \<longrightarrow>
      count_opens (evs1 @ evs2) = switches (cur_handle db) (map (target (Path db)) (op # ops))
    \<and> count_closes (evs1 @ evs2) = count_opens (evs1 @ evs2) - (if db_file db = None then 1 else 0)"
  proof
    assume ok: "list_all (\<lambda>e. e = None) es"
    then have e: "e = None" and ok1: "list_all (\<lambda>e. e = None) es1" using es by auto
    from s1 e have
      o1: "count_opens evs1 = (if db_file db = None \<or> writePath db \<noteq> Some (getTablePath db t tbl) then 1 else 0)" and
      k1: "count_closes evs1 = (if db_file db = None \<or> writePath db = Some (getTablePath db t tbl) then 0 else 1)" and
      f1: "db_file db1 \<noteq> None" and wp1: "writePath db1 = Some (getTablePath db t tbl)"
      by auto
    from s2 ok1 f1 have
      o2: "count_opens evs2 = switches (cur_handle db1) (map (target (Path db1)) ops)" and
      k2: "count_closes evs2 = count_opens evs2"
      by auto
    have ch: "cur_handle db1 = Some (target (Path db) op)"
      using f1 wp1 tp by (simp add: cur_handle_def)
    have "count_opens (evs1 @ evs2) = switches (cur_handle db) (map (target (Path db)) (op # ops))"
      using o1 o2 ch p1 tp by (auto simp: count_opens_def cur_handle_def)
    moreover have "count_closes (evs1 @ evs2) = count_opens (evs1 @ evs2) - (if db_file db = None then 1 else 0)"
      using o1 k1 k2 by (auto simp: count_opens_def count_closes_def)
    ultimately show "count_opens (evs1 @ evs2) = switches (cur_handle db) (map (target (Path db)) (op # ops))
      \<and> count_closes (evs1 @ evs2) = count_opens (evs1 @ evs2) - (if db_file db = None then 1 else 0)"
      by simp
  qed
  ultimately show ?case by blast
qed

lemma switches_same: "\<forall>q\<in>set ps. q = p \<Longrightarrow> switches cur ps = (if ps = [] \<or> cur = Some p then 0 else 1)"
  by (induction ps arbitrary: cur) auto

lemma switches_distinct: "distinct ps \<Longrightarrow> cur \<notin> Some ` set ps \<Longrightarrow> switches cur ps = length ps"
  by (induction ps arbitrary: cur) auto

lemmas save_eval = save_def save_append_def os_MkdirAll_def os_OpenAppend_def os_Close_def
  os_Append_def Let_def getTablePath_def getDir_def New_def Lock_def Unlock_def RLock_def
  localDay_def w_ok_def

lemma two_same:
  "\<exists>db' w'. saves [(0, ''logs'', ''a''), (60, ''logs'', ''b'')] (New ''data'', w_ok) = Some ([None, None], db', w')"
  by (simp add: save_eval)

lemma two_distinct:
  "\<exists>db' w'. saves [(0, ''logs'', ''a''), (86400, ''logs'', ''b'')] (New ''data'', w_ok) = Some ([None, None], db', w')"
  by (simp add: save_eval)

text \<open>
  Claim C9. In every run of \<^verbatim>\<open>save\<close> calls on a fresh handle the log keeps the
  discipline of one write handle: a file is opened only when no handle is open and
  closed only when one is, so that at most one handle is open at every moment. When
  every call succeeded, the number of opens is the number of changes of target in the
  sequence of calls: one for calls that all write the same partition, \<open>M\<close> for \<open>M\<close>
  pairwise distinct partitions (with \<open>M - 1\<close> closes, each before the next open).
\<close>

theorem write_cache_one_handle:
  assumes "syslog w = []" and "saves ops (New root, w) = Some (es, db', w')"
  shows "handles_ok 0 (syslog w')
       \<and> (\<forall>k. open_count 0 (take k (syslog w')) \<le> 1)
       \<and> (list_all (\<lambda>e. e = None) es \<longrightarrow>
            count_opens (syslog w') = switches None (map (target root) ops)
          \<and> count_closes (syslog w') = count_opens (syslog w') - 1
          \<and> (ops \<noteq> [] \<and> (\<forall>q\<in>set (map (target root) ops). q = target root (hd ops))
                \<longrightarrow> count_opens (syslog w') = 1 \<and> count_closes (syslog w') = 0)
          \<and> (distinct (map (target root) ops)
                \<longrightarrow> count_opens (syslog w') = length ops \<and> count_closes (syslog w') = length ops - 1))"
proof -
  have n0: "nopen (New root) = 0" "cur_handle (New root) = None" "Path (New root) = root"
    "db_file (New root) = None"
    by (simp_all add: nopen_def cur_handle_def New_def)
  from saves_events [OF assms(2)] obtain evs where
    l: "syslog w' = syslog w @ evs" and h0: "handles_ok (nopen (New root)) evs" and
    s0: "list_all (\<lambda>e. e = None) es \<longrightarrow>
          count_opens evs = switches (cur_handle (New root)) (map (target (Path (New root))) ops)
        \<and> count_closes evs = count_opens evs - (if db_file (New root) = None then 1 else 0)"
    by blast
  have le: "syslog w' = evs" using l assms(1) by simp
  have h: "handles_ok 0 (syslog w')" using h0 le n0(1) by simp
  have b: "\<forall>k. open_count 0 (take k (syslog w')) \<le> 1"
    using handles_ok_bound [OF h] by simp
  have c: "list_all (\<lambda>e. e = None) es \<longrightarrow>
            count_opens (syslog w') = switches None (map (target root) ops)
          \<and> count_closes (syslog w') = count_opens (syslog w') - 1
          \<and> (ops \<noteq> [] \<and> (\<forall>q\<in>set (map (target root) ops). q = target root (hd ops))
                \<longrightarrow> count_opens (syslog w') = 1 \<and> count_closes (syslog w') = 0)
          \<and> (distinct (map (target root) ops)
                \<longrightarrow> count_opens (syslog w') = length ops \<and> count_closes (syslog w') = length ops - 1)"
  proof
    assume ok: "list_all (\<lambda>e. e = None) es"
    with s0 le n0 have
      o: "count_opens (syslog w') = switches None (map (target root) ops)" and
      k: "count_closes (syslog w') = count_opens (syslog w') - 1"
      by simp_all
    have same: "ops \<noteq> [] \<and> (\<forall>q\<in>set (map (target root) ops). q = target root (hd ops))
        \<longrightarrow> count_opens (syslog w') = 1 \<and> count_closes (syslog w') = 0"
    proof
      assume a: "ops \<noteq> [] \<and> (\<forall>q\<in>set (map (target root) ops). q = target root (hd ops))"
      then have ne: "map (target root) ops \<noteq> []" and
        al: "\<forall>q\<in>set (map (target root) ops). q = target root (hd ops)"
        by blast+
      have "switches None (map (target root) ops) = 1"
        unfolding switches_same [OF al] using ne by simp
      with o k show "count_opens (syslog w') = 1 \<and> count_closes (syslog w') = 0" by simp
    qed
    have dist: "distinct (map (target root) ops)
        \<longrightarrow> count_opens (syslog w') = length ops \<and> count_closes (syslog w') = length ops - 1"
    proof
      assume "distinct (map (target root) ops)"
      then have "switches None (map (target root) ops) = length ops"
        using switches_distinct [of "map (target root) ops" None] by auto
      with o k show "count_opens (syslog w') = length ops \<and> count_closes (syslog w') = length ops - 1"
        by simp
    qed
    from o k same dist show "count_opens (syslog w') = switches None (map (target root) ops)
          \<and> count_closes (syslog w') = count_opens (syslog w') - 1
          \<and> (ops \<noteq> [] \<and> (\<forall>q\<in>set (map (target root) ops). q = target root (hd ops))
                \<longrightarrow> count_opens (syslog w') = 1 \<and> count_closes (syslog w') = 0)
          \<and> (distinct (map (target root) ops)
                \<longrightarrow> count_opens (syslog w') = length ops \<and> count_closes (syslog w') = length ops - 1)"
      by blast
  qed
  from h b c show ?thesis by blast
qed

theorem write_cache_one_handle_witness:
  "(\<exists>db' w'. saves [(0, ''logs'', ''a''), (60, ''logs'', ''b'')] (New ''data'', w_ok) = Some ([None, None], db', w')
      \<and> handles_ok 0 (syslog w') \<and> count_opens (syslog w') = 1 \<and> count_closes (syslog w') = 0)
 \<and> (\<exists>db' w'. saves [(0, ''logs'', ''a''), (86400, ''logs'', ''b'')] (New ''data'', w_ok) = Some ([None, None], db', w')
      \<and> handles_ok 0 (syslog w') \<and> count_opens (syslog w') = 2 \<and> count_closes (syslog w') = 1)"
proof -
  have l0: "syslog w_ok = []" by (simp add: w_ok_def)
  obtain db1 w1 where
    r1: "saves [(0, ''logs'', ''a''), (60, ''logs'', ''b'')] (New ''data'', w_ok) = Some ([None, None], db1, w1)"
    using two_same by blast
  have t1: "map (target ''data'') [(0, ''logs'', ''a''), (60, ''logs'', ''b'')]
      = [((''data'', 0), ''logs.log''), ((''data'', 0), ''logs.log'')]"
    by (simp add: target_def getTablePath_def getDir_def New_def localDay_def)
  have a1: "handles_ok 0 (syslog w1) \<and> count_opens (syslog w1) = 1 \<and> count_closes (syslog w1) = 0"
    using write_cache_one_handle [OF l0 r1] unfolding t1 by simp
  obtain db2 w2 where
    r2: "saves [(0, ''logs'', ''a''), (86400, ''logs'', ''b'')] (New ''data'', w_ok) = Some ([None, None], db2, w2)"
    using two_distinct by blast
  have t2: "map (target ''data'') [(0, ''logs'', ''a''), (86400, ''logs'', ''b'')]
      = [((''data'', 0), ''logs.log''), ((''data'', 1), ''logs.log'')]"
    by (simp add: target_def getTablePath_def getDir_def New_def localDay_def)
  have a2: "handles_ok 0 (syslog w2) \<and> count_opens (syslog w2) = 2 \<and> count_closes (syslog w2) = 1"
    using write_cache_one_handle [OF l0 r2] unfolding t2 by simp
  from r1 a1 r2 a2 show ?thesis by blast
qed

text \<open>
  Claim C1 asks that the exclusive lock is released on every exit path of \<^verbatim>\<open>save\<close>.
  The code releases it on the successful path only. Evaluated on a fresh handle: when
  the directory cannot be created, when the file cannot be opened and when the append
  fails, \<^verbatim>\<open>save\<close> returns its error with the lock still held, and then neither the
  next \<^verbatim>\<open>save\<close> nor a pull of a reader returns; after a successful call the lock is
  free and the next \<^verbatim>\<open>save\<close> returns.
\<close>

theorem save_error_keeps_lock:
  "(case save 0 ''logs'' ''x'' (New ''data'', w_ok\<lparr>mkdir_fails := (\<lambda>d. True)\<rparr>) of
      Some (Some e, db, w) \<Rightarrow>
        e = ErrCreatingDir (''data'', 0) \<and> writer (mutex db)
        \<and> save 1 ''logs'' ''y'' (db, w) = None
        \<and> Read db w (db_reader 0 0 ''logs'' 0 0) 4096 = None
    | _ \<Rightarrow> False)
 \<and> (case save 0 ''logs'' ''x'' (New ''data'', w_ok\<lparr>open_fails := (\<lambda>p. True)\<rparr>) of
      Some (Some e, db, w) \<Rightarrow>
        e = ErrSaveOpen ((''data'', 0), ''logs.log'') \<and> writer (mutex db)
        \<and> save 1 ''logs'' ''y'' (db, w) = None
        \<and> Read db w (db_reader 0 0 ''logs'' 0 0) 4096 = None
    | _ \<Rightarrow> False)
 \<and> (case save 0 ''logs'' ''x'' (New ''data'', w_ok\<lparr>io_fails := (\<lambda>p. True)\<rparr>) of
      Some (Some e, db, w) \<Rightarrow>
        e = ErrWritingData \<and> writer (mutex db)
        \<and> save 1 ''logs'' ''y'' (db, w) = None
        \<and> Read db w (db_reader 0 0 ''logs'' 0 0) 4096 = None
    | _ \<Rightarrow> False)
 \<and> (case save 0 ''logs'' ''x'' (New ''data'', w_ok) of
      Some (None, db, w) \<Rightarrow> \<not> writer (mutex db) \<and> save 1 ''logs'' ''y'' (db, w) \<noteq> None
    | _ \<Rightarrow> False)"
  by (simp add: save_eval Read_def)

section \<open>Properties of the codec\<close>

lemma digitChar_props: "d < 10 \<Longrightarrow> isDigit (digitChar d) \<and> digitVal (digitChar d) = d"
proof -
  assume "d < 10"
  then have "d = 0 \<or> d = 1 \<or> d = 2 \<or> d = 3 \<or> d = 4 \<or> d = 5 \<or> d = 6 \<or> d = 7 \<or> d = 8 \<or> d = 9"
    by arith
  then show ?thesis
    by (elim disjE) (simp_all add: isDigit_def digitVal_def digitChar_def)
qed

lemma parseDigits_snoc:
  "parseDigits m (xs @ [c]) =
     (case parseDigits m xs of Inl e \<Rightarrow> Inl e
      | Inr k \<Rightarrow> if \<not> isDigit c then Inl ErrSyntax
                 else if 2 ^ 64 \<le> k * 10 + digitVal c then Inl ErrRange
                 else Inr (k * 10 + digitVal c))"
  by (induction xs arbitrary: m) auto

lemma parseDigits_digits: "n < 2 ^ 64 \<Longrightarrow> parseDigits 0 (digits n) = Inr n"
proof (induction n rule: digits.induct)
  case (1 n)
  show ?case
  proof (cases "n < 10")
    case True
    then show ?thesis using 1(2)
      by (subst digits.simps) (simp add: digitChar_props)
  next
    case False
    have lt: "n div 10 < 2 ^ 64" using 1(2) by (meson div_le_dividend le_less_trans)
    have d: "n mod 10 < 10" by simp
    have recomp: "n div 10 * 10 + n mod 10 = n" by simp
    from False 1(1) lt have ih: "parseDigits 0 (digits (n div 10)) = Inr (n div 10)" by simp
    show ?thesis using False 1(2)
      by (subst digits.simps) (simp add: parseDigits_snoc ih digitChar_props [OF d] recomp)
  qed
qed

lemma digits_nonempty: "digits n \<noteq> []"
  by (subst digits.simps) simp

lemma digits_isDigit: "c \<in> set (digits n) \<Longrightarrow> isDigit c"
proof (induction n rule: digits.induct)
  case (1 n)
  from 1(2) show ?case
    by (subst (asm) digits.simps) (auto simp: digitChar_props 1(1) split: if_splits)
qed

lemma isDigit_not_special: "isDigit c \<Longrightarrow> c \<noteq> CHR '' '' \<and> c \<noteq> CHR ''-'' \<and> c \<noteq> CHR ''+'' \<and> c \<noteq> CHR 0x0A"
  by (auto simp: isDigit_def)

lemma hd_digits: "hd (digits n) \<noteq> CHR ''-'' \<and> hd (digits n) \<noteq> CHR ''+''"
  using digits_isDigit [of "hd (digits n)" n] digits_nonempty [of n] isDigit_not_special
  by (metis list.set_sel(1))

lemma ParseInt_fmt_d:
  assumes "- (2 ^ 63) \<le> n" "n < 2 ^ 63"
  shows "ParseInt (fmt_d n) = Inr n"
proof (cases "n < 0")
  case True
  then have "nat (- n) \<le> 2 ^ 63" using assms by auto
  then have "nat (- n) < 2 ^ 64" by simp
  then show ?thesis using True \<open>nat (- n) \<le> 2 ^ 63\<close>
    by (simp add: ParseInt_def fmt_d_def ParseUint_def digits_nonempty parseDigits_digits)
next
  case False
  then have b: "nat n < 2 ^ 63" using assms by auto
  then have "nat n < 2 ^ 64" by simp
  then show ?thesis using False b hd_digits [of "nat n"]
    by (simp add: ParseInt_def fmt_d_def ParseUint_def digits_nonempty parseDigits_digits)
qed


lemma IndexByte_first: "c \<notin> set xs \<Longrightarrow> IndexByte (xs @ c # ys) c = Some (length xs)"
  by (induction xs) auto

lemma fmt_d_chars: "c \<in> set (fmt_d n) \<Longrightarrow> c \<noteq> CHR '' '' \<and> c \<noteq> CHR 0x0A"
  using digits_isDigit isDigit_not_special by (fastforce simp: fmt_d_def split: if_splits)

lemma decode_line:
  assumes "- (2 ^ 63) \<le> n" "n < 2 ^ 63"
  shows "decode (fmt_d n @ CHR '' '' # s) = Inr \<lparr>Time = time_Unix n, Text = CHR '' '' # s\<rparr>"
proof -
  have "CHR '' '' \<notin> set (fmt_d n)" using fmt_d_chars by blast
  then have "IndexByte (fmt_d n @ CHR '' '' # s) CHR '' '' = Some (length (fmt_d n))"
    by (rule IndexByte_first)
  then show ?thesis using ParseInt_fmt_d [OF assms] by (simp add: decode_def)
qed

lemma ScanLines_line:
  assumes "CHR 0x0A \<notin> set line"
  shows "ScanLines (line @ CHR 0x0A # rest) atEOF = (length line + 1, Some (dropCR line))"
  using IndexByte_first [OF assms] by (simp add: ScanLines_def)

lemmas codec_eval = ScanLines_def encode_def fmt_d_def Unix_def digits.simps digitChar_def dropCR_def
  decode_def ParseInt_def ParseUint_def isDigit_def digitVal_def time_Unix_def


text \<open>
  Claim C2 asks that decoding the line encoded for \<open>(t, s)\<close> gives back \<open>(t, s)\<close>.
  \<^verbatim>\<open>Data\<close> cuts the line at its first space and keeps that space in the text
  (\<^verbatim>\<open>line[i:]\<close>), so the decoded text is never \<open>s\<close>: for the record \<open>(0, "a")\<close> it is
  \<open>" a"\<close>.
\<close>

theorem roundtrip_counterexample:
  "ScanLines (encode 0 ''a'') False = (4, Some ''0 a'')
   \<and> decode ''0 a'' = Inr \<lparr>Time = 0, Text = '' a''\<rparr>
   \<and> decode ''0 a'' \<noteq> Inr \<lparr>Time = 0, Text = ''a''\<rparr>"
  by (simp add: codec_eval)


text \<open>
  Claim C2 as amended. For every instant \<open>t\<close> whose second count is an \<^verbatim>\<open>int64\<close> and
  every text \<open>s\<close> with no newline and no final carriage return (the tokenizer drops
  one), the tokenizer returns the encoded line without its newline, and decoding it
  gives the instant \<open>t\<close> and the text \<open>s\<close> behind the separating space.
\<close>

theorem decode_encode:
  assumes "- (2 ^ 63) \<le> Unix t" and "Unix t < 2 ^ 63"
    and "CHR 0x0A \<notin> set s" and "s = [] \<or> last s \<noteq> CHR 0x0D"
  shows "ScanLines (encode t s) atEOF = (length (encode t s), Some (fmt_d (Unix t) @ '' '' @ s))
       \<and> decode (fmt_d (Unix t) @ '' '' @ s) = Inr \<lparr>Time = t, Text = CHR '' '' # s\<rparr>"
proof -
  let ?line = "fmt_d (Unix t) @ '' '' @ s"
  have nl: "CHR 0x0A \<notin> set ?line" using assms(3) fmt_d_chars by auto
  have cr: "dropCR ?line = ?line" using assms(4) by (auto simp: dropCR_def)
  have "ScanLines (?line @ CHR 0x0A # []) atEOF = (length ?line + 1, Some (dropCR ?line))"
    by (rule ScanLines_line [OF nl])
  then have a: "ScanLines (encode t s) atEOF = (length (encode t s), Some ?line)"
    using cr by (simp add: encode_def)
  have b: "decode ?line = Inr \<lparr>Time = t, Text = CHR '' '' # s\<rparr>"
    using decode_line [OF assms(1,2), of s] by (simp add: time_Unix_def Unix_def)
  from a b show ?thesis by simp
qed

theorem decode_encode_witness:
  "ScanLines (encode 1700000000 ''disk full'') False = (21, Some ''1700000000 disk full'')
   \<and> decode ''1700000000 disk full'' = Inr \<lparr>Time = 1700000000, Text = '' disk full''\<rparr>"
proof -
  have h1: "- (2 ^ 63) \<le> Unix 1700000000" and h2: "Unix 1700000000 < 2 ^ 63"
    by (simp_all add: Unix_def)
  have h3: "CHR 0x0A \<notin> set ''disk full''" and h4: "''disk full'' = [] \<or> last ''disk full'' \<noteq> CHR 0x0D"
    by simp_all
  have ev: "length (encode 1700000000 ''disk full'') = 21"
    "fmt_d (Unix 1700000000) @ '' '' @ ''disk full'' = ''1700000000 disk full''"
    by (simp_all add: codec_eval)
  from decode_encode [OF h1 h2 h3 h4, of False] show ?thesis
    unfolding ev by simp
qed


section \<open>Properties of the reader\<close>

definition w_ab :: world where
  "w_ab = \<lparr>files = (\<lambda>p. None)(((''data'', 0), ''logs.log'') := Some ''ab''),
          mkdir_fails = (\<lambda>d. False), open_fails = (\<lambda>p. False), io_fails = (\<lambda>p. False), syslog = []\<rparr>"

lemmas time_eval = Before_def After_def Add24h_def ext_def int64_def unixToInternal_def zeroTime_def

lemmas reader_eval = Read_def RLock_def Read_loop.simps nextFile.simps db_reader_def reader_open_def reader_Close_def
      os_OpenRead_def getTablePath_def getDir_def New_def localDay_def time_eval
      file_Read_def Let_def IsNotExist_def


text \<open>
  Claim C7 asks that, once the partitions are exhausted, the carry-over bytes are
  returned once and every later pull returns no byte. \<^verbatim>\<open>Read\<close> copies the rest of
  its buffer out at the end of the stream and does not empty the buffer (the path that
  serves a full request does, with \<^verbatim>\<open>r.buf = r.buf[l:]\<close>). On one partition holding
  \<open>"ab"\<close>, a pull of 4 bytes returns \<open>"ab"\<close> with the end of the stream; the next pull
  of 4 bytes returns \<open>"ab"\<close> again, and a pull of 1 byte after it returns \<open>"a"\<close> with
  no end of stream.
\<close>

theorem carry_over_returned_again:
  "(case Read (New ''data'') w_ab (db_reader 0 0 ''logs'' 0 0) 4 of
      Some (b1, e1, r1) \<Rightarrow>
        b1 = ''ab'' \<and> e1 = Some EOF \<and>
        (case Read (New ''data'') w_ab r1 4 of
           Some (b2, e2, r2) \<Rightarrow>
             b2 = ''ab'' \<and> e2 = Some EOF \<and>
             (case Read (New ''data'') w_ab r2 1 of
                Some (b3, e3, r3) \<Rightarrow> b3 = ''a'' \<and> e3 = None
              | None \<Rightarrow> False)
         | None \<Rightarrow> False)
    | None \<Rightarrow> False)"
  by (simp add: reader_eval w_ab_def)



section \<open>The byte stream of a query\<close>

text \<open>
  The instants that \<^verbatim>\<open>nextFile\<close> visits, in exact arithmetic: the start, then steps of
  24 hours while the instant is not after the end. An instant is ordinary when its
  field \<^verbatim>\<open>ext\<close> is not wrapped around and a step of 24 hours from it does not reach
  the last second; for an ordinary start and end the loop of \<^verbatim>\<open>nextFile\<close> visits these
  instants (lemma \<open>nextFile_step\<close>).
\<close>

definition ordinary :: "Time \<Rightarrow> bool" where
  "ordinary t = (- (2 ^ 63) \<le> t \<and> t + 86400 < 2 ^ 63 - unixToInternal)"

function schedule :: "Time \<Rightarrow> Time \<Rightarrow> Time \<Rightarrow> Time list" where
  "schedule st en cur =
     (let c = (if cur < st then st else cur + 86400)
      in if en < c then [] else c # schedule st en c)"
  by pat_completeness auto
termination
  by (relation "measure (\<lambda>(st, en, cur). if cur < st then nat (en + 1 - st) + 1 else nat (en + 1 - cur))")
     auto

declare schedule.simps [simp del]

definition days_left :: "reader \<Rightarrow> nat" where
  "days_left r =
     (if current r < start r then nat (endT r + 1 - start r) + 1
      else nat (endT r + 1 - current r))"

definition content :: "world \<Rightarrow> filename \<Rightarrow> string" where
  "content w p = (case files w p of None \<Rightarrow> [] | Some c \<Rightarrow> c)"

definition upcoming :: "DB \<Rightarrow> world \<Rightarrow> reader \<Rightarrow> string" where
  "upcoming db w r =
     concat (map (\<lambda>c. content w (getTablePath db c (table r))) (schedule (start r) (endT r) (current r)))"

definition stream :: "DB \<Rightarrow> world \<Rightarrow> reader \<Rightarrow> string" where
  "stream db w r = buf r @ (if keepFile r then file_rest w (r_file r) else []) @ upcoming db w r"

definition healthy :: "world \<Rightarrow> bool" where
  "healthy w = (\<forall>p. \<not> open_fails w p \<and> \<not> io_fails w p)"

definition ready :: "reader \<Rightarrow> bool" where
  "ready r = ((keepFile r \<longrightarrow> r_file r \<noteq> None)
              \<and> ordinary (start r) \<and> ordinary (endT r) \<and> ordinary (current r))"

definition same_query :: "reader \<Rightarrow> reader \<Rightarrow> bool" where
  "same_query r r' =
     (table r' = table r \<and> start r' = start r \<and> endT r' = endT r \<and> offset r' = offset r
      \<and> limit r' = limit r \<and> index r' = index r \<and> filterS r' = filterS r)"

lemma healthyD: "healthy w \<Longrightarrow> \<not> open_fails w p" "healthy w \<Longrightarrow> \<not> io_fails w p"
  unfolding healthy_def by blast+

lemma int64_id: "- (2 ^ 63) \<le> x \<Longrightarrow> x < 2 ^ 63 \<Longrightarrow> int64 x = x"
  by (simp add: int64_def)

lemma ext_plain: "- (2 ^ 63) \<le> t \<Longrightarrow> t < 2 ^ 63 - unixToInternal \<Longrightarrow> ext t = t + unixToInternal"
  by (simp add: ext_def int64_id unixToInternal_def)

lemma ordinary_ext: "ordinary t \<Longrightarrow> ext t = t + unixToInternal"
  by (simp add: ordinary_def ext_plain)

lemma ordinary_zeroTime: "ordinary zeroTime"
  by (simp add: ordinary_def zeroTime_def unixToInternal_def)

lemma Before_plain: "ordinary t \<Longrightarrow> ordinary u \<Longrightarrow> Before t u = (t < u)"
  by (simp add: Before_def ordinary_ext)

lemma Add24h_plain: "ordinary t \<Longrightarrow> Add24h t = t + 86400"
proof -
  assume o: "ordinary t"
  then have b: "- (2 ^ 63) \<le> t" "t + 86400 < 2 ^ 63 - unixToInternal" by (simp_all add: ordinary_def)
  from b have "t + unixToInternal + 86400 < 2 ^ 63" by simp
  moreover have "int64 (t + 86400) = t + 86400" using b by (intro int64_id) (simp_all add: unixToInternal_def)
  ultimately show ?thesis by (simp add: Add24h_def ordinary_ext [OF o])
qed

lemma step_plain:
  assumes "ordinary st" and "ordinary en" and "ordinary cur"
  shows "(if Before cur st then st else Add24h cur) = (if cur < st then st else cur + 86400)"
    and "After (if cur < st then st else cur + 86400) en = (en < (if cur < st then st else cur + 86400))"
    and "\<not> en < (if cur < st then st else cur + 86400) \<Longrightarrow> ordinary (if cur < st then st else cur + 86400)"
proof -
  show "(if Before cur st then st else Add24h cur) = (if cur < st then st else cur + 86400)"
    using assms by (simp add: Before_plain Add24h_plain)
  have e: "ext (cur + 86400) = cur + 86400 + unixToInternal"
    using assms(3) by (intro ext_plain) (simp_all add: ordinary_def)
  show "After (if cur < st then st else cur + 86400) en = (en < (if cur < st then st else cur + 86400))"
    using assms e by (simp add: After_def ordinary_ext)
  show "\<not> en < (if cur < st then st else cur + 86400) \<Longrightarrow> ordinary (if cur < st then st else cur + 86400)"
    using assms by (auto simp: ordinary_def)
qed

lemma nextFile_step:
  assumes "ordinary (start r)" and "ordinary (endT r)" and "ordinary (current r)"
  shows "nextFile db w r =
     (let r1 = r\<lparr>current := (if current r < start r then start r else current r + 86400)\<rparr>
      in if endT r < current r1 then Some (Some EOF, r1)
         else
           (case reader_open db w r1 (current r1) of
              (Inl e, r2) \<Rightarrow> if IsNotExist e then nextFile db w r2 else Some (Some e, r2)
            | (Inr f, r2) \<Rightarrow> Some (None, r2\<lparr>r_file := Some f\<rparr>)))"
  by (subst nextFile.simps) (simp add: Let_def step_plain [OF assms])

lemma same_query_refl [simp]: "same_query r r"
  by (simp add: same_query_def)

lemma same_query_trans: "same_query r r' \<Longrightarrow> same_query r' r'' \<Longrightarrow> same_query r r''"
  by (simp add: same_query_def)

lemma upcoming_step:
  "upcoming db w r =
     (let c = (if current r < start r then start r else current r + 86400)
      in if endT r < c then []
         else content w (getTablePath db c (table r)) @ upcoming db w (r\<lparr>current := c\<rparr>))"
  by (subst upcoming_def, subst schedule.simps) (simp add: Let_def upcoming_def)

lemma days_left_upd [simp]:
  "days_left (r\<lparr>r_file := f\<rparr>) = days_left r"
  "days_left (r\<lparr>keepFile := k\<rparr>) = days_left r"
  "days_left (r\<lparr>buf := b\<rparr>) = days_left r"
  by (simp_all add: days_left_def)

lemma reader_open_cases:
  assumes "reader_open db w r t = (x, r')" and "\<not> open_fails w (getTablePath db t (table r))"
  shows "case x of
           Inl e \<Rightarrow> IsNotExist e \<and> content w (getTablePath db t (table r)) = []
         | Inr f \<Rightarrow> file_rest w (Some f) = content w (getTablePath db t (table r))"
  using assms
  by (auto simp: reader_open_def os_OpenRead_def Let_def IsNotExist_def content_def file_rest_def
        reader_Close_def split: option.splits if_splits sum.splits)

lemma nextFile_stream:
  assumes "healthy w" and "ordinary (start r)" and "ordinary (endT r)" and "ordinary (current r)"
  shows "\<exists>e r'. nextFile db w r = Some (e, r') \<and> same_query r r' \<and> buf r' = buf r
       \<and> keepFile r' = keepFile r \<and> (e = None \<or> e = Some EOF)
       \<and> (e = None \<longrightarrow> r_file r' \<noteq> None \<and> ordinary (current r') \<and> days_left r' < days_left r
             \<and> upcoming db w r = file_rest w (r_file r') @ upcoming db w r')
       \<and> (e = Some EOF \<longrightarrow> upcoming db w r = [])"
  using assms(2-4)
proof (induction "days_left r" arbitrary: r rule: less_induct)
  case less
  note os = less.prems(1) and oe = less.prems(2) and oc = less.prems(3)
  define c where "c = (if current r < start r then start r else current r + 86400)"
  define r1 where "r1 = r\<lparr>current := c\<rparr>"
  have q1: "same_query r r1" "buf r1 = buf r" "keepFile r1 = keepFile r" "current r1 = c"
    "start r1 = start r" "endT r1 = endT r" "table r1 = table r"
    by (simp_all add: r1_def same_query_def)
  have up: "upcoming db w r =
      (if endT r < c then [] else content w (getTablePath db c (table r)) @ upcoming db w r1)"
    by (subst upcoming_step) (simp add: r1_def c_def Let_def)
  have nf: "nextFile db w r =
      (if endT r < c then Some (Some EOF, r1)
       else (case reader_open db w r1 c of
              (Inl e, r2) \<Rightarrow> if IsNotExist e then nextFile db w r2 else Some (Some e, r2)
            | (Inr f, r2) \<Rightarrow> Some (None, r2\<lparr>r_file := Some f\<rparr>)))"
    by (subst nextFile_step [OF os oe oc]) (simp add: Let_def r1_def c_def)
  show ?case
  proof (cases "endT r < c")
    case True
    with nf q1 up show ?thesis by simp
  next
    case False
    have ord: "ordinary c" using step_plain(3) [OF os oe oc] False by (simp add: c_def)
    have dl: "days_left r1 < days_left r" using False by (auto simp: days_left_def r1_def c_def)
    obtain x r2 where op: "reader_open db w r1 c = (x, r2)" by (cases "reader_open db w r1 c")
    from reader_open_fields [OF op] q1 have
      q2: "same_query r r2" "buf r2 = buf r" "keepFile r2 = keepFile r" "current r2 = c"
        "start r2 = start r" "endT r2 = endT r"
      and u2: "upcoming db w r2 = upcoming db w r1" and d2: "days_left r2 = days_left r1"
      by (simp_all add: same_query_def upcoming_def days_left_def)
    from nf False op have nf2:
      "nextFile db w r = (case x of Inl err \<Rightarrow> if IsNotExist err then nextFile db w r2 else Some (Some err, r2)
                  | Inr f \<Rightarrow> Some (None, r2\<lparr>r_file := Some f\<rparr>))"
      by simp
    show ?thesis
    proof (cases x)
      case (Inl err)
      have nof: "\<not> open_fails w (getTablePath db c (table r1))"
        using healthyD(1) [OF assms(1)] by simp
      from reader_open_cases [OF op nof] Inl have ne: "IsNotExist err"
        and missing: "content w (getTablePath db c (table r)) = []"
        by (simp_all add: q1)
      from nf2 Inl ne have rec: "nextFile db w r = nextFile db w r2" by simp
      have lt: "days_left r2 < days_left r" using d2 dl by simp
      have o2: "ordinary (start r2)" "ordinary (endT r2)" "ordinary (current r2)"
        using q2 os oe ord by simp_all
      from less.hyps [OF lt o2] obtain e r' where ih:
        "nextFile db w r2 = Some (e, r')" "same_query r2 r'" "buf r' = buf r2" "keepFile r' = keepFile r2"
        "e = None \<or> e = Some EOF"
        "e = None \<longrightarrow> r_file r' \<noteq> None \<and> ordinary (current r') \<and> days_left r' < days_left r2
             \<and> upcoming db w r2 = file_rest w (r_file r') @ upcoming db w r'"
        "e = Some EOF \<longrightarrow> upcoming db w r2 = []"
        by blast
      have un: "upcoming db w r = upcoming db w r2" using up False missing u2 by simp
      have sq: "same_query r r'" by (rule same_query_trans [OF q2(1) ih(2)])
      from ih(6) lt have "e = None \<longrightarrow> days_left r' < days_left r" by auto
      with ih q2 sq un rec show ?thesis by auto
    next
      case (Inr f)
      from nf2 Inr have res: "nextFile db w r = Some (None, r2\<lparr>r_file := Some f\<rparr>)" by simp
      have nof: "\<not> open_fails w (getTablePath db c (table r1))"
        using healthyD(1) [OF assms(1)] by simp
      from reader_open_cases [OF op nof] Inr
      have f: "file_rest w (Some f) = content w (getTablePath db c (table r))"
        by (simp add: q1)
      have u3: "upcoming db w (r2\<lparr>r_file := Some f\<rparr>) = upcoming db w r1" using u2 by (simp add: upcoming_def)
      have d3: "days_left (r2\<lparr>r_file := Some f\<rparr>) < days_left r" using d2 dl by simp
      from res up False f u3 d3 q2 ord show ?thesis
        by (intro exI [of _ None] exI [of _ "r2\<lparr>r_file := Some f\<rparr>"]) (simp add: same_query_def)
    qed
  qed
qed

lemma file_Read_ok:
  assumes "\<forall>p. \<not> io_fails w p" and "0 < l" and "f \<noteq> None" and "file_Read w f l = (b, ee, f')"
  shows "(file_rest w f = [] \<and> b = [] \<and> ee = Some EOF \<and> f' = f)
       \<or> (file_rest w f \<noteq> [] \<and> b = take l (file_rest w f) \<and> ee = None
            \<and> file_rest w f' = drop l (file_rest w f) \<and> f' \<noteq> None)"
proof -
  from assms(3) obtain p pos where f: "f = Some (p, pos)" by (cases f) auto
  have io: "\<not> io_fails w p" using assms(1) by blast
  define rest where "rest = drop pos (case files w p of None \<Rightarrow> [] | Some c \<Rightarrow> c)"
  have fr: "file_rest w f = rest" by (simp add: f file_rest_def rest_def)
  show ?thesis
  proof (cases "rest = []")
    case True
    with assms(2,4) f io fr show ?thesis
      by (simp add: file_Read_def rest_def Let_def)
  next
    case False
    from assms(2,4) f io False have
      b: "b = take l rest" and ee: "ee = None" and f': "f' = Some (p, pos + length (take l rest))"
      by (auto simp: file_Read_def rest_def Let_def)
    have "file_rest w f' = drop (length (take l rest)) rest"
      by (simp add: f' file_rest_def rest_def add.commute)
    also have "\<dots> = drop l rest" by (cases "l \<le> length rest") (simp_all add: min_def)
    finally show ?thesis using False b ee f' fr by simp
  qed
qed

lemma stream_upd [simp]:
  "upcoming db w (r\<lparr>r_file := f\<rparr>) = upcoming db w r"
  "upcoming db w (r\<lparr>keepFile := k\<rparr>) = upcoming db w r"
  "upcoming db w (r\<lparr>buf := b\<rparr>) = upcoming db w r"
  by (simp_all add: upcoming_def)

lemma same_query_upd [simp]:
  "same_query r (r'\<lparr>r_file := f\<rparr>) = same_query r r'"
  "same_query r (r'\<lparr>keepFile := k\<rparr>) = same_query r r'"
  "same_query r (r'\<lparr>buf := b\<rparr>) = same_query r r'"
  by (simp_all add: same_query_def)

lemma Read_loop_stream:
  assumes "healthy w" and "0 < l" and "ready r"
  shows "\<exists>bs e r'. Read_loop db w r l = Some (bs, e, r') \<and> same_query r r'
       \<and> (l \<le> length (stream db w r) \<longrightarrow>
             bs = take l (stream db w r) \<and> e = None \<and> stream db w r' = drop l (stream db w r)
             \<and> ready r')
       \<and> (length (stream db w r) < l \<longrightarrow> bs = stream db w r \<and> e = Some EOF)"
  using assms(3)
proof (induction r rule: wf_induct_rule
    [OF wf_measures [of "[days_left, \<lambda>r. if keepFile r then 1 + length (file_rest w (r_file r)) else 0]"]])
  case (1 r)
  note rdy = "1.prems"
  have io: "\<forall>p. \<not> io_fails w p" using healthyD(2) [OF assms(1)] by simp
  from rdy have kf: "keepFile r \<longrightarrow> r_file r \<noteq> None"
    and os: "ordinary (start r)" and oe: "ordinary (endT r)" and oc: "ordinary (current r)"
    by (simp_all add: ready_def)
  show ?case
  proof (cases "l \<le> length (buf r)")
    case True
    then have res: "Read_loop db w r l = Some (take l (buf r), None, r\<lparr>buf := drop l (buf r)\<rparr>)"
      by (subst Read_loop.simps) simp
    have "ready (r\<lparr>buf := drop l (buf r)\<rparr>)" using rdy by (simp add: ready_def)
    with True res show ?thesis by (simp add: stream_def)
  next
    case False
    have "\<exists>x y. (if \<not> keepFile r then nextFile db w r else Some (None, r)) = Some (x, y)
        \<and> same_query r y \<and> buf y = buf r \<and> (x = None \<or> x = Some EOF)
        \<and> (x = None \<longrightarrow> r_file y \<noteq> None \<and> ordinary (current y)
              \<and> (if keepFile r then y = r else days_left y < days_left r)
              \<and> stream db w r = buf r @ file_rest w (r_file y) @ upcoming db w y)
        \<and> (x = Some EOF \<longrightarrow> stream db w r = buf r)"
    proof (cases "keepFile r")
      case True
      with kf oc show ?thesis by (simp add: stream_def)
    next
      case nk: False
      from nextFile_stream [OF assms(1) os oe oc, of db] nk show ?thesis
        by (auto simp: stream_def)
    qed
    then obtain x y where nf: "(if \<not> keepFile r then nextFile db w r else Some (None, r)) = Some (x, y)"
      and sqy: "same_query r y" and bufy: "buf y = buf r" and xx: "x = None \<or> x = Some EOF"
      and xn: "x = None \<longrightarrow> r_file y \<noteq> None \<and> ordinary (current y)
              \<and> (if keepFile r then y = r else days_left y < days_left r)
              \<and> stream db w r = buf r @ file_rest w (r_file y) @ upcoming db w y"
      and xe: "x = Some EOF \<longrightarrow> stream db w r = buf r"
      by blast
    have oy: "ordinary (start y)" "ordinary (endT y)" using sqy os oe by (simp_all add: same_query_def)
    show ?thesis
    proof (cases x)
      case (Some err)
      with xx xe have err: "err = EOF" and S: "stream db w r = buf r" by auto
      from False nf Some have res: "Read_loop db w r l = Some (take l (buf y), Some EOF, y)"
        by (subst Read_loop.simps) (simp add: err)
      from res S bufy sqy False show ?thesis by simp
    next
      case None
      with xn have fy: "r_file y \<noteq> None" and ocy: "ordinary (current y)"
        and ms: "if keepFile r then y = r else days_left y < days_left r"
        and S: "stream db w r = buf r @ file_rest w (r_file y) @ upcoming db w y" by auto
      obtain b ee f where fr: "file_Read w (r_file y) l = (b, ee, f)"
        by (cases "file_Read w (r_file y) l")
      from file_Read_ok [OF io assms(2) fy fr] show ?thesis
      proof
        assume a: "file_rest w (r_file y) = [] \<and> b = [] \<and> ee = Some EOF \<and> f = r_file y"
        let ?r = "y\<lparr>r_file := f, keepFile := False, buf := buf y @ b\<rparr>"
        from False nf None fr a have rec: "Read_loop db w r l = Read_loop db w ?r l"
          by (subst Read_loop.simps) simp
        have rd: "ready ?r" using oy ocy by (simp add: ready_def)
        have m: "(?r, r) \<in> measures [days_left, \<lambda>r. if keepFile r then 1 + length (file_rest w (r_file r)) else 0]"
          using ms by (cases "keepFile r") simp_all
        from "1.IH" [OF m rd] obtain bs e r' where ih:
          "Read_loop db w ?r l = Some (bs, e, r')" "same_query ?r r'"
          "l \<le> length (stream db w ?r) \<longrightarrow>
                 bs = take l (stream db w ?r) \<and> e = None \<and> stream db w r' = drop l (stream db w ?r)
                 \<and> ready r'"
          "length (stream db w ?r) < l \<longrightarrow> bs = stream db w ?r \<and> e = Some EOF"
          by blast
        have st: "stream db w ?r = stream db w r" using S a bufy by (simp add: stream_def)
        have sq: "same_query r r'" using ih(2) sqy by (auto simp: same_query_def)
        from ih st sq rec show ?thesis by simp
      next
        assume a: "file_rest w (r_file y) \<noteq> [] \<and> b = take l (file_rest w (r_file y)) \<and> ee = None
            \<and> file_rest w f = drop l (file_rest w (r_file y)) \<and> f \<noteq> None"
        let ?r = "y\<lparr>r_file := f, keepFile := True, buf := buf y @ b\<rparr>"
        from False nf None fr a have rec: "Read_loop db w r l = Read_loop db w ?r l"
          by (subst Read_loop.simps) simp
        have rd: "ready ?r" using oy ocy a by (simp add: ready_def)
        have sh: "length (file_rest w f) < length (file_rest w (r_file y))"
          using a assms(2) by (cases "file_rest w (r_file y)") simp_all
        have m: "(?r, r) \<in> measures [days_left, \<lambda>r. if keepFile r then 1 + length (file_rest w (r_file r)) else 0]"
          using ms sh by (cases "keepFile r") simp_all
        from "1.IH" [OF m rd] obtain bs e r' where ih:
          "Read_loop db w ?r l = Some (bs, e, r')" "same_query ?r r'"
          "l \<le> length (stream db w ?r) \<longrightarrow>
                 bs = take l (stream db w ?r) \<and> e = None \<and> stream db w r' = drop l (stream db w ?r)
                 \<and> ready r'"
          "length (stream db w ?r) < l \<longrightarrow> bs = stream db w ?r \<and> e = Some EOF"
          by blast
        have "stream db w ?r = buf r @ (take l (file_rest w (r_file y)) @ drop l (file_rest w (r_file y)))
            @ upcoming db w y"
          using a bufy by (simp add: stream_def)
        then have st: "stream db w ?r = stream db w r" using S by simp
        have sq: "same_query r r'" using ih(2) sqy by (auto simp: same_query_def)
        from ih st sq rec show ?thesis by simp
      qed
    qed
  qed
qed

section \<open>The lines of the stream\<close>

definition next_line :: "string \<Rightarrow> string \<times> string" where
  "next_line s =
     (case IndexByte s (CHR 0x0A) of
        Some i \<Rightarrow> (take i s, drop (i + 1) s)
      | None \<Rightarrow> (s, []))"

lemma next_line_shorter: "s \<noteq> [] \<Longrightarrow> length (snd (next_line s)) < length s"
  by (auto simp: next_line_def split: option.splits)

function split_lines :: "string \<Rightarrow> string list" where
  "split_lines s = (if s = [] then [] else dropCR (fst (next_line s)) # split_lines (snd (next_line s)))"
  by pat_completeness auto
termination
  by (relation "measure length") (auto simp: next_line_shorter)

function fits :: "nat \<Rightarrow> string \<Rightarrow> bool" where
  "fits cap s = (if s = [] then True else length (fst (next_line s)) < cap \<and> fits cap (snd (next_line s)))"
  by pat_completeness auto
termination
  by (relation "measure (\<lambda>(cap, s). length s)") (auto simp: next_line_shorter)

declare split_lines.simps [simp del] fits.simps [simp del]

definition pending :: "DB \<Rightarrow> world \<Rightarrow> bufio_Scanner \<times> reader \<Rightarrow> string" where
  "pending db w x = (case x of (sc, r) \<Rightarrow> sbuf sc @ (if serr sc = None then stream db w r else []))"

definition sc_inv :: "bufio_Scanner \<Rightarrow> reader \<Rightarrow> bool" where
  "sc_inv sc r =
     (sstart sc + length (sbuf sc) \<le> maxCapacity \<and> (serr sc = None \<or> serr sc = Some EOF)
      \<and> (serr sc = None \<longrightarrow> ready r))"

lemma IndexByte_Some: "IndexByte xs c = Some i \<Longrightarrow> i < length xs"
  by (induction xs arbitrary: i) (auto split: if_splits)

lemma IndexByte_append1: "IndexByte xs c = Some i \<Longrightarrow> IndexByte (xs @ ys) c = Some i"
  by (induction xs arbitrary: i) (auto split: if_splits)

lemma IndexByte_append2:
  "IndexByte xs c = None \<Longrightarrow>
     IndexByte (xs @ ys) c = (case IndexByte ys c of None \<Rightarrow> None | Some j \<Rightarrow> Some (length xs + j))"
  by (induction xs) (auto split: if_splits option.splits)

lemma Read_free: "\<not> writer (mutex db) \<Longrightarrow> Read db w r l = Read_loop db w r l"
  by (simp add: Read_def RLock_def)

lemma read_retry_stream:
  assumes "healthy w" and "\<not> writer (mutex db)" and "serr sc = None"
    and "sstart sc + length (sbuf sc) < maxCapacity" and "ready r"
  shows "\<exists>sc' r'. read_retry (Suc k) db w (sc, r) = Some (sc', r') \<and> same_query r r'
           \<and> sc_inv sc' r' \<and> pending db w (sc', r') = pending db w (sc, r)
           \<and> sstart sc' = sstart sc"
proof -
  define l where "l = maxCapacity - (sstart sc + length (sbuf sc))"
  have lpos: "0 < l" using assms(4) by (simp add: l_def)
  from Read_loop_stream [OF assms(1) lpos assms(5), of db] obtain bs e r' where
    rl: "Read_loop db w r l = Some (bs, e, r')" and
    sq: "same_query r r'" and
    a: "l \<le> length (stream db w r) \<longrightarrow>
             bs = take l (stream db w r) \<and> e = None \<and> stream db w r' = drop l (stream db w r)
             \<and> ready r'" and
    b: "length (stream db w r) < l \<longrightarrow> bs = stream db w r \<and> e = Some EOF"
    by blast
  have rd: "Read db w r l = Some (bs, e, r')" using Read_free [OF assms(2)] rl by simp
  show ?thesis
  proof (cases "l \<le> length (stream db w r)")
    case True
    with a have bs: "bs = take l (stream db w r)" and e: "e = None"
      and st: "stream db w r' = drop l (stream db w r)" and k: "ready r'"
      by blast+
    have len: "length bs = l" using bs True by simp
    have "read_retry (Suc k) db w (sc, r) = Some (sc\<lparr>sbuf := sbuf sc @ bs\<rparr>, r')"
      using rd len lpos e by (simp add: l_def [symmetric])
    moreover have "sc_inv (sc\<lparr>sbuf := sbuf sc @ bs\<rparr>) r'"
      using assms(3,4) len k by (simp add: sc_inv_def l_def)
    moreover have "pending db w (sc\<lparr>sbuf := sbuf sc @ bs\<rparr>, r') = pending db w (sc, r)"
      using assms(3) bs st by (simp add: pending_def)
    ultimately show ?thesis using sq by simp
  next
    case False
    with b have bs: "bs = stream db w r" and e: "e = Some EOF" by simp_all
    have len: "length bs < l" using bs False by simp
    have "read_retry (Suc k) db w (sc, r) = Some (setErr (sc\<lparr>sbuf := sbuf sc @ bs\<rparr>) EOF, r')"
      using rd len e by (simp add: l_def [symmetric])
    moreover have se: "setErr (sc\<lparr>sbuf := sbuf sc @ bs\<rparr>) EOF = sc\<lparr>sbuf := sbuf sc @ bs, serr := Some EOF\<rparr>"
      using assms(3) by (simp add: setErr_def)
    moreover have "sc_inv (sc\<lparr>sbuf := sbuf sc @ bs, serr := Some EOF\<rparr>) r'"
      using assms(4) len by (simp add: sc_inv_def l_def)
    moreover have "pending db w (sc\<lparr>sbuf := sbuf sc @ bs, serr := Some EOF\<rparr>, r') = pending db w (sc, r)"
      using assms(3) bs by (simp add: pending_def)
    ultimately show ?thesis using sq by simp
  qed
qed

definition scan_post :: "DB \<Rightarrow> world \<Rightarrow> bufio_Scanner \<Rightarrow> reader
    \<Rightarrow> (bool \<times> bufio_Scanner \<times> reader) option \<Rightarrow> bool" where
  "scan_post db w sc r res =
     (\<exists>sc' r'. res = Some (pending db w (sc, r) \<noteq> [], sc', r') \<and> same_query r r' \<and> sc_inv sc' r'
        \<and> pending db w (sc', r') = snd (next_line (pending db w (sc, r)))
        \<and> (pending db w (sc, r) \<noteq> [] \<longrightarrow> stoken sc' = dropCR (fst (next_line (pending db w (sc, r))))))"

lemma maxCapacity_pos: "0 < maxCapacity"
  by (simp add: maxCapacity_def)

lemma fits_first: "fits cap s \<Longrightarrow> s \<noteq> [] \<Longrightarrow> length (fst (next_line s)) < cap"
  by (subst (asm) fits.simps) simp

lemma next_line_long:
  assumes "IndexByte xs (CHR 0x0A) = None"
  shows "length xs \<le> length (fst (next_line (xs @ ys)))"
  using IndexByte_append2 [OF assms, of ys]
  by (auto simp: next_line_def split: option.splits)

lemma sc_Scan_next:
  assumes "healthy w" and "\<not> writer (mutex db)" and "sc_inv sc r"
    and "fits maxCapacity (pending db w (sc, r))"
  shows "scan_post db w sc r (sc_Scan db w (sc, r))"
  using assms
proof (induction db w "(sc, r)" arbitrary: sc r rule: sc_Scan.induct)
  case (1 db w sc r)
  note hw = "1.prems"(1) and fr = "1.prems"(2) and inv = "1.prems"(3) and ft = "1.prems"(4)
  let ?P = "pending db w (sc, r)"
  let ?X = "if serr sc = None then stream db w r else []"
  have P: "?P = sbuf sc @ ?X" by (simp add: pending_def)
  show ?case
  proof (cases "IndexByte (sbuf sc) (CHR 0x0A)")
    case (Some i)
    from IndexByte_Some [OF Some] have i: "i < length (sbuf sc)" .
    then have ne: "sbuf sc \<noteq> []" by auto
    let ?sc1 = "sc\<lparr>sbuf := drop (i + 1) (sbuf sc), sstart := sstart sc + (i + 1),
                   stoken := dropCR (take i (sbuf sc))\<rparr>"
    have sp: "split_step sc = (Some (dropCR (take i (sbuf sc))), ?sc1)"
      using Some ne by (simp add: split_step_def ScanLines_def)
    have res: "sc_Scan db w (sc, r) = Some (True, ?sc1, r)"
      by (subst sc_Scan.simps) (simp add: sp)
    have nl: "next_line ?P = (take i (sbuf sc), drop (i + 1) (sbuf sc) @ ?X)"
      using IndexByte_append1 [OF Some, of ?X] i by (simp add: P next_line_def)
    have "sc_inv ?sc1 r" using inv i by (auto simp: sc_inv_def)
    moreover have "pending db w (?sc1, r) = drop (i + 1) (sbuf sc) @ ?X" by (simp add: pending_def)
    moreover have "?P \<noteq> []" using ne by (simp add: P)
    ultimately show ?thesis using res nl by (simp add: scan_post_def)
  next
    case None
    show ?thesis
    proof (cases "serr sc")
      case (Some err)
      with inv have eof: "serr sc = Some EOF" by (auto simp: sc_inv_def)
      have P': "?P = sbuf sc" using eof by (simp add: pending_def)
      show ?thesis
      proof (cases "sbuf sc = []")
        case True
        let ?sc1 = "sc\<lparr>sbuf := [], sstart := sstart sc, stoken := []\<rparr>"
        have sp: "split_step sc = (None, ?sc1)"
          using True eof by (simp add: split_step_def ScanLines_def)
        have res: "sc_Scan db w (sc, r) = Some (False, ?sc1\<lparr>sbuf := [], sstart := 0\<rparr>, r)"
          using eof by (subst sc_Scan.simps) (simp add: sp)
        have "sc_inv (?sc1\<lparr>sbuf := [], sstart := 0\<rparr>) r" using eof by (simp add: sc_inv_def)
        moreover have "pending db w (?sc1\<lparr>sbuf := [], sstart := 0\<rparr>, r) = []"
          using eof by (simp add: pending_def)
        moreover have "next_line [] = ([], [])" by (simp add: next_line_def)
        ultimately show ?thesis using res True P' by (simp add: scan_post_def)
      next
        case False
        let ?sc1 = "sc\<lparr>sbuf := [], sstart := sstart sc + length (sbuf sc), stoken := dropCR (sbuf sc)\<rparr>"
        have sp: "split_step sc = (Some (dropCR (sbuf sc)), ?sc1)"
          using False eof None by (simp add: split_step_def ScanLines_def)
        have res: "sc_Scan db w (sc, r) = Some (True, ?sc1, r)"
          by (subst sc_Scan.simps) (simp add: sp)
        have nl: "next_line ?P = (sbuf sc, [])" using None by (simp add: P' next_line_def)
        have "sc_inv ?sc1 r" using inv eof by (simp add: sc_inv_def)
        moreover have "pending db w (?sc1, r) = []" using eof by (simp add: pending_def)
        ultimately show ?thesis using res nl False P' by (simp add: scan_post_def)
      qed
    next
      case noerr: None
      define y where "y = (if sbuf sc \<noteq> [] then sc\<lparr>sbuf := sbuf sc, sstart := sstart sc, stoken := []\<rparr> else sc)"
      have sp: "split_step sc = (None, y)"
        using noerr None by (simp add: split_step_def ScanLines_def y_def)
      have y: "sbuf y = sbuf sc" "sstart y = sstart sc" "serr y = None"
        using noerr by (simp_all add: y_def)
      have notfull: "\<not> maxCapacity \<le> sstart (shift y) + length (sbuf (shift y))"
      proof
        assume full: "maxCapacity \<le> sstart (shift y) + length (sbuf (shift y))"
        have "maxCapacity \<le> length (sbuf sc)"
          using full inv y by (auto simp: shift_def sc_inv_def split: if_splits)
        moreover have "length (sbuf sc) \<le> length (fst (next_line ?P))"
          unfolding P by (rule next_line_long [OF None])
        moreover have "?P \<noteq> []" using calculation(1) maxCapacity_pos by (auto simp: P)
        ultimately show False using fits_first [OF ft] by simp
      qed
      have room: "sstart (shift y) + length (sbuf (shift y)) < maxCapacity"
        using notfull by simp
      have k: "ready r" using inv noerr by (simp add: sc_inv_def)
      have e101: "read_retry 101 db w (shift y, r) = read_retry (Suc 100) db w (shift y, r)"
        by (simp only: eval_nat_numeral)
      have sy: "serr (shift y) = None" using y by simp
      from read_retry_stream [OF hw fr sy room k, of 100] obtain sc2 r2 where
        rr0: "read_retry (Suc 100) db w (shift y, r) = Some (sc2, r2)" and sq: "same_query r r2"
        and inv2: "sc_inv sc2 r2" and p2: "pending db w (sc2, r2) = pending db w (shift y, r)"
        by blast
      have rr: "read_retry 101 db w (shift y, r) = Some (sc2, r2)" using e101 rr0 by simp
      have p2': "pending db w (sc2, r2) = ?P" using p2 y noerr by (simp add: pending_def)
      have res: "sc_Scan db w (sc, r) = sc_Scan db w (sc2, r2)"
        using notfull y rr by (subst sc_Scan.simps) (simp add: sp)
      have ft2: "fits maxCapacity (pending db w (sc2, r2))" using ft p2' by simp
      have "scan_post db w sc2 r2 (sc_Scan db w (sc2, r2))"
        using "1.hyps" [OF sp [symmetric] refl _ notfull rr refl hw fr inv2 ft2] y by simp
      then obtain sc' r' where
        q: "sc_Scan db w (sc2, r2) = Some (?P \<noteq> [], sc', r')" "same_query r2 r'" "sc_inv sc' r'"
          "pending db w (sc', r') = snd (next_line ?P)"
          "?P \<noteq> [] \<longrightarrow> stoken sc' = dropCR (fst (next_line ?P))"
        unfolding scan_post_def p2' by blast
      from same_query_trans [OF sq q(2)] q show ?thesis
        unfolding scan_post_def res by (intro exI [of _ sc'] exI [of _ r']) simp
    qed
  qed
qed

section \<open>The scan over the lines\<close>

definition data_of :: "string \<Rightarrow> DataPoint" where
  "data_of line = (case decode line of Inl e \<Rightarrow> zeroDataPoint | Inr d \<Rightarrow> d)"

definition err_after :: "error option \<Rightarrow> string \<Rightarrow> error option" where
  "err_after err line = (case decode line of Inl e \<Rightarrow> Some e | Inr d \<Rightarrow> err)"

definition keep :: "Time \<Rightarrow> string \<Rightarrow> string \<Rightarrow> bool" where
  "keep st flt line = (\<not> Before (Time (data_of line)) st \<and> (flt = [] \<or> Contains line flt))"

fun scan_lines :: "Time \<Rightarrow> string \<Rightarrow> int \<Rightarrow> int \<Rightarrow> int \<Rightarrow> error option \<Rightarrow> string list
    \<Rightarrow> string option \<times> int \<times> error option \<times> string list" where
  "scan_lines st flt off lim idx err [] = (None, idx, err, [])"
| "scan_lines st flt off lim idx err (l # ls) =
     (if 0 < lim \<and> lim \<le> idx then (None, idx, err, l # ls)
      else if \<not> keep st flt l then scan_lines st flt off lim idx (err_after err l) ls
      else if idx < off then scan_lines st flt off lim (int64 (idx + 1)) (err_after err l) ls
      else (Some l, int64 (idx + 1), err_after err l, ls))"

fun emit :: "Time \<Rightarrow> string \<Rightarrow> int \<Rightarrow> int \<Rightarrow> int \<Rightarrow> string list \<Rightarrow> string list" where
  "emit st flt off lim idx [] = []"
| "emit st flt off lim idx (l # ls) =
     (if 0 < lim \<and> lim \<le> idx then []
      else if \<not> keep st flt l then emit st flt off lim idx ls
      else if idx < off then emit st flt off lim (int64 (idx + 1)) ls
      else l # emit st flt off lim (int64 (idx + 1)) ls)"

fun final_err :: "Time \<Rightarrow> string \<Rightarrow> int \<Rightarrow> int \<Rightarrow> int \<Rightarrow> error option \<Rightarrow> string list \<Rightarrow> error option" where
  "final_err st flt off lim idx err [] = err"
| "final_err st flt off lim idx err (l # ls) =
     (if 0 < lim \<and> lim \<le> idx then err
      else if \<not> keep st flt l then final_err st flt off lim idx (err_after err l) ls
      else final_err st flt off lim (int64 (idx + 1)) (err_after err l) ls)"

lemma scan_lines_emit:
  "scan_lines st flt off lim idx err ls = (em, idx', err', rest) \<Longrightarrow>
     emit st flt off lim idx ls = (case em of None \<Rightarrow> [] | Some l \<Rightarrow> l # emit st flt off lim idx' rest)
   \<and> final_err st flt off lim idx err ls
       = (case em of None \<Rightarrow> err' | Some l \<Rightarrow> final_err st flt off lim idx' err' rest)"
proof (induction st flt off lim idx err ls rule: scan_lines.induct)
  case (1 st flt off lim idx err)
  then show ?case by auto
next
  case (2 st flt off lim idx err l ls)
  then show ?case by (auto split: if_splits)
qed

definition abs_state :: "DB \<Rightarrow> world \<Rightarrow> Scanner \<Rightarrow> string list \<Rightarrow> int \<Rightarrow> error option \<Rightarrow> bool" where
  "abs_state db w s ls idx err =
     (sc_inv (scanner s) (reader s)
      \<and> fits maxCapacity (pending db w (scanner s, reader s))
      \<and> split_lines (pending db w (scanner s, reader s)) = ls
      \<and> index (reader s) = idx \<and> Error s = err)"

definition params :: "Scanner \<Rightarrow> Time \<times> string \<times> int \<times> int" where
  "params s = (start (reader s), filterS (reader s), offset (reader s), limit (reader s))"

lemma split_lines_Nil: "split_lines s = [] \<longleftrightarrow> s = []"
  by (subst split_lines.simps) simp

lemma fits_Nil [simp]: "fits cap []"
  by (subst fits.simps) simp

lemma split_lines_empty [simp]: "split_lines [] = []"
  by (subst split_lines.simps) simp

lemma fits_rest: "fits cap s \<Longrightarrow> fits cap (snd (next_line s))"
proof (cases "s = []")
  case True
  then show ?thesis by (subst fits.simps) (simp add: next_line_def)
next
  case False
  assume "fits cap s"
  with False show ?thesis by (subst (asm) fits.simps) simp
qed

lemma pending_index [simp]: "pending db w (sc, r\<lparr>index := i\<rparr>) = pending db w (sc, r)"
  by (simp add: pending_def stream_def upcoming_def)

lemma sc_inv_index [simp]: "sc_inv sc (r\<lparr>index := i\<rparr>) = sc_inv sc r"
  by (simp add: sc_inv_def ready_def)

lemma sc_inv_Err: "sc_inv sc r \<Longrightarrow> Err sc = None"
  by (auto simp: sc_inv_def Err_def)

lemma Scan_spec:
  assumes "healthy w" and "\<not> writer (mutex db)" and "abs_state db w s ls idx err"
    and "params s = (st, flt, off, lim)"
    and "scan_lines st flt off lim idx err ls = (em, idx', err', rest)"
  shows "\<exists>s'. Scan db w s = Some (em \<noteq> None, s') \<and> abs_state db w s' rest idx' err'
           \<and> params s' = (st, flt, off, lim)
           \<and> (\<forall>l. em = Some l \<longrightarrow> stoken (scanner s') = l)"
  using assms(3,4,5)
proof (induction ls arbitrary: s idx err)
  case Nil
  note ab = Nil.prems(1) and pa = Nil.prems(2) and sl = Nil.prems(3)
  from sl have em: "em = None" "idx' = idx" "err' = err" "rest = []" by simp_all
  let ?P = "pending db w (scanner s, reader s)"
  from ab have P: "?P = []" and inv: "sc_inv (scanner s) (reader s)" and ft: "fits maxCapacity ?P"
    and ix: "index (reader s) = idx" and er: "Error s = err"
    by (simp_all add: abs_state_def split_lines_Nil)
  show ?case
  proof (cases "0 < limit (reader s) \<and> limit (reader s) \<le> index (reader s)")
    case True
    then have "Scan db w s = Some (False, s)" by (subst Scan.simps) simp
    with ab pa em show ?thesis by simp
  next
    case False
    from sc_Scan_next [OF assms(1,2) inv ft] P obtain sc' r' where
      r: "sc_Scan db w (scanner s, reader s) = Some (False, sc', r')" "same_query (reader s) r'"
        "sc_inv sc' r'" "pending db w (sc', r') = []"
      by (auto simp: scan_post_def next_line_def)
    let ?s = "s\<lparr>reader := r', scanner := sc'\<rparr>"
    from False have nl: "(0 < limit (reader s) \<and> limit (reader s) \<le> index (reader s)) = False"
      by simp
    from r(1) have "Scan db w s = Some (False, ?s)" by (subst Scan.simps) (simp add: nl)
    moreover have "abs_state db w ?s [] idx err"
      using r ix er by (simp add: abs_state_def same_query_def)
    moreover have "params ?s = (st, flt, off, lim)" using pa r(2) by (simp add: params_def same_query_def)
    ultimately show ?thesis using em by simp
  qed
next
  case (Cons l ls)
  note ab = Cons.prems(1) and pa = Cons.prems(2) and sl = Cons.prems(3)
  let ?P = "pending db w (scanner s, reader s)"
  from ab have sp: "split_lines ?P = l # ls" and inv: "sc_inv (scanner s) (reader s)"
    and ft: "fits maxCapacity ?P" and ix: "index (reader s) = idx" and er: "Error s = err"
    by (simp_all add: abs_state_def)
  from pa have q: "start (reader s) = st" "filterS (reader s) = flt" "offset (reader s) = off"
    "limit (reader s) = lim" by (simp_all add: params_def)
  from sp have ne: "?P \<noteq> []" using split_lines_Nil by fastforce
  from sp ne have l: "l = dropCR (fst (next_line ?P))" and ls: "ls = split_lines (snd (next_line ?P))"
    by (subst (asm) split_lines.simps, simp)+
  show ?case
  proof (cases "0 < lim \<and> lim \<le> idx")
    case True
    with q ix have "Scan db w s = Some (False, s)" by (subst Scan.simps) simp
    moreover from sl True have "em = None" "idx' = idx" "err' = err" "rest = l # ls" by simp_all
    ultimately show ?thesis using ab pa by simp
  next
    case False
    from sc_Scan_next [OF assms(1,2) inv ft] ne obtain sc' r' where
      r: "sc_Scan db w (scanner s, reader s) = Some (True, sc', r')" "same_query (reader s) r'"
        "sc_inv sc' r'" "pending db w (sc', r') = snd (next_line ?P)" "stoken sc' = l"
      using l by (auto simp: scan_post_def)
    let ?s1 = "s\<lparr>reader := r', scanner := sc'\<rparr>"
    let ?s2 = "?s1\<lparr>Error := err_after err l\<rparr>"
    have dat: "Data ?s1 = (data_of l, ?s2)"
      using sc_inv_Err [OF r(3)] r(5) er
      by (cases "decode l") (simp_all add: Data_def data_of_def err_after_def)
    have q2: "start r' = st" "filterS r' = flt" "offset r' = off" "limit r' = lim" "index r' = idx"
      using r(2) q ix by (simp_all add: same_query_def)
    have ab2: "abs_state db w ?s2 ls idx (err_after err l)"
      using r(3,4) fits_rest [OF ft] ls q2 by (simp add: abs_state_def)
    have pa2: "params ?s2 = (st, flt, off, lim)" using q2 by (simp add: params_def)
    have ab3: "abs_state db w (bump ?s2) ls (int64 (idx + 1)) (err_after err l)"
      using ab2 q2 by (simp add: abs_state_def bump_def)
    have pa3: "params (bump ?s2) = (st, flt, off, lim)" using q2 by (simp add: params_def bump_def)
    have unf: "Scan db w s =
        (if Before (Time (data_of l)) st then Scan db w ?s2
         else if flt \<noteq> [] \<and> \<not> Contains l flt then Scan db w ?s2
         else if idx < off then Scan db w (bump ?s2)
         else Some (True, bump ?s2))"
    proof -
      from False q ix have nl: "(0 < limit (reader s) \<and> limit (reader s) \<le> index (reader s)) = False"
        by simp
      show ?thesis using r(1) dat q2 r(5) by (subst Scan.simps) (simp add: nl)
    qed
    show ?thesis
    proof (cases "keep st flt l")
      case nk: False
      with sl False have sl': "scan_lines st flt off lim idx (err_after err l) ls = (em, idx', err', rest)"
        by simp
      from nk unf have "Scan db w s = Scan db w ?s2" by (auto simp: keep_def)
      with Cons.IH [OF ab2 pa2 sl'] show ?thesis by simp
    next
      case k: True
      then have unf': "Scan db w s = (if idx < off then Scan db w (bump ?s2) else Some (True, bump ?s2))"
        using unf by (auto simp: keep_def)
      show ?thesis
      proof (cases "idx < off")
        case True
        with sl False k have sl': "scan_lines st flt off lim (int64 (idx + 1)) (err_after err l) ls
            = (em, idx', err', rest)" by simp
        from True unf' have "Scan db w s = Scan db w (bump ?s2)" by simp
        with Cons.IH [OF ab3 pa3 sl'] show ?thesis by simp
      next
        case nlt: False
        with sl False k have "em = Some l" "idx' = int64 (idx + 1)" "err' = err_after err l" "rest = ls"
          by simp_all
        moreover from nlt unf' have "Scan db w s = Some (True, bump ?s2)" by simp
        moreover have "stoken (scanner (bump ?s2)) = l" using r(5) by (simp add: bump_def)
        ultimately show ?thesis using ab3 pa3 by simp
      qed
    qed
  qed
qed

lemma Data_token:
  "Err (scanner s) = None \<Longrightarrow>
     Data s = (data_of (stoken (scanner s)), s\<lparr>Error := err_after (Error s) (stoken (scanner s))\<rparr>)"
  by (cases "decode (stoken (scanner s))") (simp_all add: Data_def data_of_def err_after_def)

lemma err_after_idem: "err_after (err_after e l) l = err_after e l"
  by (cases "decode l") (simp_all add: err_after_def)

lemma scan_loop_spec:
  assumes "healthy w" and "\<not> writer (mutex db)" and "abs_state db w s ls idx err"
    and "params s = (st, flt, off, lim)" and "length (emit st flt off lim idx ls) < k"
  shows "\<exists>s'. scan_loop k db w s = Some (map data_of (emit st flt off lim idx ls), True, s')
           \<and> Error s' = final_err st flt off lim idx err ls"
  using assms(3,4,5)
proof (induction k arbitrary: s ls idx err)
  case 0
  then show ?case by simp
next
  case (Suc k)
  obtain em idx' err' rest where sl: "scan_lines st flt off lim idx err ls = (em, idx', err', rest)"
    by (cases "scan_lines st flt off lim idx err ls")
  from Scan_spec [OF assms(1,2) Suc.prems(1,2) sl] obtain s' where
    sc: "Scan db w s = Some (em \<noteq> None, s')" and ab: "abs_state db w s' rest idx' err'"
    and pa: "params s' = (st, flt, off, lim)" and tk: "\<forall>l. em = Some l \<longrightarrow> stoken (scanner s') = l"
    by blast
  from scan_lines_emit [OF sl] have
    em: "emit st flt off lim idx ls = (case em of None \<Rightarrow> [] | Some l \<Rightarrow> l # emit st flt off lim idx' rest)"
    and fe: "final_err st flt off lim idx err ls
       = (case em of None \<Rightarrow> err' | Some l \<Rightarrow> final_err st flt off lim idx' err' rest)"
    by simp_all
  show ?case
  proof (cases em)
    case None
    with sc have "scan_loop (Suc k) db w s = Some ([], True, s')" by simp
    moreover have "Error s' = err'" using ab by (simp add: abs_state_def)
    ultimately show ?thesis using em fe None by simp
  next
    case (Some l)
    with tk have tok: "stoken (scanner s') = l" by simp
    have er: "Error s' = err'" using ab by (simp add: abs_state_def)
    have "sc_inv (scanner s') (reader s')" using ab by (simp add: abs_state_def)
    then have "Err (scanner s') = None" by (rule sc_inv_Err)
    from Data_token [OF this] tok er have dat: "Data s' = (data_of l, s'\<lparr>Error := err_after err' l\<rparr>)"
      by simp
    let ?s2 = "s'\<lparr>Error := err_after err' l\<rparr>"
    have ab2: "abs_state db w ?s2 rest idx' (err_after err' l)" using ab by (simp add: abs_state_def)
    have pa2: "params ?s2 = (st, flt, off, lim)" using pa by (simp add: params_def)
    have len: "length (emit st flt off lim idx' rest) < k" using Suc.prems(3) em Some by simp
    from Suc.IH [OF ab2 pa2 len] obtain s3 where
      r: "scan_loop k db w ?s2 = Some (map data_of (emit st flt off lim idx' rest), True, s3)"
      and e3: "Error s3 = final_err st flt off lim idx' (err_after err' l) rest" by blast
    have "scan_loop (Suc k) db w s = Some (data_of l # map data_of (emit st flt off lim idx' rest), True, s3)"
      using sc Some dat r by simp
    moreover have "err_after err' l = err'"
    proof -
      from sl Some have "\<exists>e0. err' = err_after e0 l"
        by (induction st flt off lim idx err ls rule: scan_lines.induct) (auto split: if_splits)
      then show ?thesis using err_after_idem by auto
    qed
    ultimately show ?thesis using em fe Some e3 by simp
  qed
qed

definition all_bytes :: "DB \<Rightarrow> world \<Rightarrow> string \<Rightarrow> Time \<Rightarrow> Time \<Rightarrow> string" where
  "all_bytes db w tbl st en =
     concat (map (\<lambda>c. content w (getTablePath db c tbl)) (schedule st en zeroTime))"

lemma query_scan:
  assumes "healthy w" and "\<not> writer (mutex db)" and "ordinary st" and "ordinary en"
    and "fits maxCapacity (all_bytes db w tbl st en)"
    and "length (emit st flt off (int64 (off + sz)) 0 (split_lines (all_bytes db w tbl st en))) < k"
  shows "\<exists>s'. scan_loop k db w (SetFilter (Query tbl st en off sz) flt)
             = Some (map data_of (emit st flt off (int64 (off + sz)) 0 (split_lines (all_bytes db w tbl st en))),
                     True, s')
           \<and> Error s' = final_err st flt off (int64 (off + sz)) 0 None (split_lines (all_bytes db w tbl st en))"
proof -
  let ?s = "SetFilter (Query tbl st en off sz) flt"
  have p: "pending db w (scanner ?s, reader ?s) = all_bytes db w tbl st en"
    by (simp add: SetFilter_def Query_def NewScanner_def db_reader_def pending_def stream_def
        upcoming_def all_bytes_def)
  have "abs_state db w ?s (split_lines (all_bytes db w tbl st en)) 0 None"
    unfolding abs_state_def p using assms(3,4,5) ordinary_zeroTime
    by (simp add: SetFilter_def Query_def NewScanner_def db_reader_def sc_inv_def ready_def)
  moreover have "params ?s = (st, flt, off, int64 (off + sz))"
    by (simp add: params_def SetFilter_def Query_def db_reader_def)
  ultimately show ?thesis using scan_loop_spec [OF assms(1,2) _ _ assms(6)] by blast
qed


section \<open>Offset, limit, filter and time floor\<close>

lemma emit_limited:
  assumes "0 < lim" and "lim < 2 ^ 63" and "0 \<le> idx"
  shows "emit st flt off lim idx ls
       = drop (nat (off - idx)) (take (nat (lim - idx)) (filter (keep st flt) ls))"
  using assms(3)
proof (induction ls arbitrary: idx)
  case Nil
  then show ?case by simp
next
  case (Cons l ls)
  show ?case
  proof (cases "lim \<le> idx")
    case True
    with assms(1) show ?thesis by simp
  next
    case False
    then have nx: "int64 (idx + 1) = idx + 1" using assms(2) Cons.prems by (simp add: int64_id)
    have s1: "nat (lim - idx) = Suc (nat (lim - (idx + 1)))" using False by simp
    show ?thesis
    proof (cases "keep st flt l")
      case nk: False
      with False assms(1) Cons.IH [OF Cons.prems] show ?thesis by simp
    next
      case k: True
      have ih: "emit st flt off lim (idx + 1) ls
          = drop (nat (off - (idx + 1))) (take (nat (lim - (idx + 1))) (filter (keep st flt) ls))"
        using Cons.IH [of "idx + 1"] Cons.prems by simp
      show ?thesis
      proof (cases "idx < off")
        case True
        then have s2: "nat (off - idx) = Suc (nat (off - (idx + 1)))" by simp
        from True k False assms(1) nx ih show ?thesis by (simp add: s1 s2)
      next
        case nlt: False
        then have z: "nat (off - idx) = 0" "nat (off - (idx + 1)) = 0" by simp_all
        from nlt k False assms(1) nx ih show ?thesis by (simp add: s1 z)
      qed
    qed
  qed
qed

lemma emit_unlimited:
  assumes "lim \<le> 0" and "0 \<le> idx" and "idx + int (length ls) < 2 ^ 63"
  shows "emit st flt off lim idx ls = drop (nat (off - idx)) (filter (keep st flt) ls)"
  using assms(2,3)
proof (induction ls arbitrary: idx)
  case Nil
  then show ?case by simp
next
  case (Cons l ls)
  have nl: "(0 < lim) = False" using assms(1) by simp
  have nx: "int64 (idx + 1) = idx + 1" using Cons.prems by (simp add: int64_id)
  have ih0: "emit st flt off lim idx ls = drop (nat (off - idx)) (filter (keep st flt) ls)"
    using Cons.IH [of idx] Cons.prems by simp
  have ih1: "emit st flt off lim (idx + 1) ls = drop (nat (off - (idx + 1))) (filter (keep st flt) ls)"
    using Cons.IH [of "idx + 1"] Cons.prems by simp
  show ?case
  proof (cases "keep st flt l")
    case False
    with nl ih0 show ?thesis by simp
  next
    case k: True
    show ?thesis
    proof (cases "idx < off")
      case True
      then have s2: "nat (off - idx) = Suc (nat (off - (idx + 1)))" by simp
      from True k nl nx ih1 show ?thesis by (simp add: s2)
    next
      case nlt: False
      then have z: "nat (off - idx) = 0" "nat (off - (idx + 1)) = 0" by simp_all
      from nlt k nl nx ih1 show ?thesis by (simp add: z)
    qed
  qed
qed

text \<open>
  Two partitions of the day 0 for the examples. The second line of the second one has
  the last count of an \<^verbatim>\<open>int64\<close>: \<^verbatim>\<open>time.Unix\<close> wraps its field \<^verbatim>\<open>ext\<close> around, the
  value is before every ordinary start and the scan drops the line.
\<close>

definition w_one :: world where
  "w_one = \<lparr>files = (\<lambda>p. None)(((''data'', 0), ''logs.log'') := Some ''10 a\<newline>20 b\<newline>30 c\<newline>''),
             mkdir_fails = (\<lambda>d. False), open_fails = (\<lambda>p. False), io_fails = (\<lambda>p. False),
             syslog = []\<rparr>"

definition w_far :: world where
  "w_far = \<lparr>files = (\<lambda>p. None)(((''data'', 0), ''logs.log'') :=
               Some ''10 a\<newline>9223372036854775807 x\<newline>20 b\<newline>''),
             mkdir_fails = (\<lambda>d. False), open_fails = (\<lambda>p. False), io_fails = (\<lambda>p. False),
             syslog = []\<rparr>"

lemmas stream_eval = all_bytes_def schedule.simps content_def getTablePath_def getDir_def localDay_def
  zeroTime_def Let_def New_def

lemmas lines_eval = split_lines.simps fits.simps next_line_def dropCR_def maxCapacity_def

lemmas keep_eval = keep_def data_of_def decode_def ParseInt_def ParseUint_def isDigit_def digitVal_def
  time_Unix_def zeroDataPoint_def time_eval

lemma ordinary_0: "ordinary 0"
  by (simp add: ordinary_def unixToInternal_def)

lemma w_one_healthy: "healthy w_one" "\<not> writer (mutex (New ''data''))"
  by (simp_all add: healthy_def w_one_def New_def)

lemma w_far_healthy: "healthy w_far" "\<not> writer (mutex (New ''data''))"
  by (simp_all add: healthy_def w_far_def New_def)

lemma w_far_bytes:
  "all_bytes (New ''data'') w_far ''logs'' 0 0 = ''10 a\<newline>9223372036854775807 x\<newline>20 b\<newline>''"
  by (simp add: stream_eval w_far_def)

lemma w_far_lines:
  "split_lines ''10 a\<newline>9223372036854775807 x\<newline>20 b\<newline>''
     = [''10 a'', ''9223372036854775807 x'', ''20 b'']"
  "fits maxCapacity ''10 a\<newline>9223372036854775807 x\<newline>20 b\<newline>''"
  by (simp_all add: lines_eval)

lemma w_far_data:
  "decode ''9223372036854775807 x'' = Inr \<lparr>Time = 9223372036854775807, Text = '' x''\<rparr>"
  "Before 9223372036854775807 0"
  "filter (keep 0 []) [''10 a'', ''9223372036854775807 x'', ''20 b''] = [''10 a'', ''20 b'']"
  "map data_of [''10 a'', ''20 b''] = [\<lparr>Time = 10, Text = '' a''\<rparr>, \<lparr>Time = 20, Text = '' b''\<rparr>]"
  by (simp_all add: keep_eval)

lemma w_far_split:
  "split_lines (all_bytes (New ''data'') w_far ''logs'' 0 0) = [''10 a'', ''9223372036854775807 x'', ''20 b'']"
  "fits maxCapacity (all_bytes (New ''data'') w_far ''logs'' 0 0)"
  by (simp_all only: w_far_bytes w_far_lines)

lemma w_far_quals:
  "filter (keep 0 []) (split_lines (all_bytes (New ''data'') w_far ''logs'' 0 0)) = [''10 a'', ''20 b'']"
  by (simp only: w_far_split w_far_data)

lemma w_one_bytes: "all_bytes (New ''data'') w_one ''logs'' 0 0 = ''10 a\<newline>20 b\<newline>30 c\<newline>''"
  by (simp add: stream_eval w_one_def)

lemma w_one_lines:
  "split_lines ''10 a\<newline>20 b\<newline>30 c\<newline>'' = [''10 a'', ''20 b'', ''30 c'']"
  "fits maxCapacity ''10 a\<newline>20 b\<newline>30 c\<newline>''"
  by (simp_all add: lines_eval)

lemma w_one_data:
  "map data_of [''10 a'', ''20 b'', ''30 c'']
     = [\<lparr>Time = 10, Text = '' a''\<rparr>, \<lparr>Time = 20, Text = '' b''\<rparr>, \<lparr>Time = 30, Text = '' c''\<rparr>]"
  "filter (keep 0 []) [''10 a'', ''20 b'', ''30 c''] = [''10 a'', ''20 b'', ''30 c'']"
  by (simp_all add: keep_eval)

text \<open>
  Claim C3 says that a query of size 0 is unlimited for every offset. \<^verbatim>\<open>Query\<close> passes
  \<open>offset + size\<close> as the limit and \<^verbatim>\<open>Scan\<close> reads a limit of 0 as no limit, so a size
  of 0 with an offset above 0 is the limit \<open>offset\<close>: the scan skips \<open>offset\<close> records
  and stops. On a partition of three records, the query of offset 1 and size 0 yields
  nothing, where the claim expects the records at positions 1 and 2.
\<close>

theorem size_zero_offset_counterexample:
  "(case scan_loop 5 (New ''data'') w_one (SetFilter (Query ''logs'' 0 0 1 0) []) of
      Some (ds, fin, s) \<Rightarrow> ds = [] \<and> fin
    | None \<Rightarrow> False)
   \<and> filter (keep 0 []) (split_lines (all_bytes (New ''data'') w_one ''logs'' 0 0))
       = [''10 a'', ''20 b'', ''30 c'']"
proof -
  have ft: "fits maxCapacity (all_bytes (New ''data'') w_one ''logs'' 0 0)"
    by (simp add: w_one_bytes w_one_lines)
  have em: "emit 0 [] 1 (int64 (1 + 0)) 0 (split_lines (all_bytes (New ''data'') w_one ''logs'' 0 0)) = []"
    by (simp add: w_one_bytes w_one_lines keep_eval)
  have "length (emit 0 [] 1 (int64 (1 + 0)) 0 (split_lines (all_bytes (New ''data'') w_one ''logs'' 0 0))) < 5"
    unfolding em by simp
  from query_scan [OF w_one_healthy ordinary_0 ordinary_0 ft this] obtain s' where
    "scan_loop 5 (New ''data'') w_one (SetFilter (Query ''logs'' 0 0 1 0) [])
      = Some (map data_of (emit 0 [] 1 (int64 (1 + 0)) 0
                (split_lines (all_bytes (New ''data'') w_one ''logs'' 0 0))), True, s')"
    by blast
  then have a: "scan_loop 5 (New ''data'') w_one (SetFilter (Query ''logs'' 0 0 1 0) []) = Some ([], True, s')"
    unfolding em by simp
  have b: "filter (keep 0 []) (split_lines (all_bytes (New ''data'') w_one ''logs'' 0 0))
       = [''10 a'', ''20 b'', ''30 c'']"
    unfolding w_one_bytes w_one_lines by (rule w_one_data(2))
  from a b show ?thesis by simp
qed

text \<open>
  Claim C3 as amended. For every query of size 0 whose offset is 0 (or below), between
  an ordinary start and an ordinary end, the scanner is unlimited: it yields every
  record of the stream that passes the time floor and the filter, in stream order. The
  time floor is the comparison of \<^verbatim>\<open>Before\<close>, on the field \<^verbatim>\<open>ext\<close>: a line whose count
  wraps that field around is before the start and is not yielded.
\<close>

theorem size_zero_unlimited:
  assumes "healthy w" and "\<not> writer (mutex db)"
    and "fits maxCapacity (all_bytes db w tbl st en)"
    and "- (2 ^ 63) \<le> off" and "off \<le> 0"
    and "int (length (split_lines (all_bytes db w tbl st en))) < 2 ^ 63"
    and "length (filter (keep st flt) (split_lines (all_bytes db w tbl st en))) < k"
    and ost: "ordinary st" and oen: "ordinary en"
  shows "\<exists>s'. scan_loop k db w (SetFilter (Query tbl st en off 0) flt)
           = Some (map data_of (filter (keep st flt) (split_lines (all_bytes db w tbl st en))), True, s')"
proof -
  let ?ls = "split_lines (all_bytes db w tbl st en)"
  have lim: "int64 (off + 0) = off" using assms(4,5) by (simp add: int64_id)
  have "emit st flt off off 0 ?ls = drop (nat (off - 0)) (filter (keep st flt) ?ls)"
    using assms(5,6) by (intro emit_unlimited) simp_all
  then have em: "emit st flt off (int64 (off + 0)) 0 ?ls = filter (keep st flt) ?ls"
    using assms(5) by (simp only: lim) simp
  from query_scan [OF assms(1,2) ost oen assms(3), of flt off 0 k] assms(7) show ?thesis
    unfolding em by blast
qed

theorem size_zero_unlimited_witness:
  "\<exists>s'. scan_loop 5 (New ''data'') w_far (SetFilter (Query ''logs'' 0 0 0 0) [])
     = Some ([\<lparr>Time = 10, Text = '' a''\<rparr>, \<lparr>Time = 20, Text = '' b''\<rparr>], True, s')"
proof -
  have r: "- (2 ^ 63) \<le> (0::int)" "(0::int) \<le> 0" by simp_all
  have n: "int (length (split_lines (all_bytes (New ''data'') w_far ''logs'' 0 0))) < 2 ^ 63"
    unfolding w_far_split by simp
  have k: "length (filter (keep 0 []) (split_lines (all_bytes (New ''data'') w_far ''logs'' 0 0))) < 5"
    unfolding w_far_quals by simp
  from size_zero_unlimited [OF w_far_healthy w_far_split(2) r n k ordinary_0 ordinary_0] show ?thesis
    unfolding w_far_quals w_far_data .
qed

text \<open>
  Claim C5 says that \<open>query(..., offset, size)\<close> emits the qualifying records at the
  positions \<open>offset\<close> to \<open>offset + size - 1\<close> and stops when the index reaches
  \<open>offset + size\<close>. For offset 0 and size 0 that is no record; the limit 0 means no
  limit, and the scan of the three records yields all three.
\<close>

theorem pagination_counterexample:
  "(case scan_loop 5 (New ''data'') w_one (SetFilter (Query ''logs'' 0 0 0 0) []) of
      Some (ds, fin, s) \<Rightarrow>
        ds = [\<lparr>Time = 10, Text = '' a''\<rparr>, \<lparr>Time = 20, Text = '' b''\<rparr>, \<lparr>Time = 30, Text = '' c''\<rparr>] \<and> fin
    | None \<Rightarrow> False)"
proof -
  have ft: "fits maxCapacity (all_bytes (New ''data'') w_one ''logs'' 0 0)"
    by (simp add: w_one_bytes w_one_lines)
  have em: "emit 0 [] 0 (int64 (0 + 0)) 0 (split_lines (all_bytes (New ''data'') w_one ''logs'' 0 0))
      = [''10 a'', ''20 b'', ''30 c'']"
    by (simp add: w_one_bytes w_one_lines keep_eval)
  have "length (emit 0 [] 0 (int64 (0 + 0)) 0 (split_lines (all_bytes (New ''data'') w_one ''logs'' 0 0))) < 5"
    unfolding em by simp
  from query_scan [OF w_one_healthy ordinary_0 ordinary_0 ft this] obtain s' where
    "scan_loop 5 (New ''data'') w_one (SetFilter (Query ''logs'' 0 0 0 0) [])
      = Some (map data_of (emit 0 [] 0 (int64 (0 + 0)) 0
                (split_lines (all_bytes (New ''data'') w_one ''logs'' 0 0))), True, s')"
    by blast
  then show ?thesis unfolding em w_one_data by simp
qed

text \<open>
  Claim C5 as amended. For every query with an offset of at least 0 and a size of at
  least 1 (whose sum is an \<^verbatim>\<open>int\<close>), between an ordinary start and an ordinary end,
  over a stream with at least \<open>offset + size\<close> qualifying records, the scan emits exactly
  the \<open>size\<close> qualifying records at the positions \<open>offset\<close> to \<open>offset + size - 1\<close>, in
  stream order, and the call after the last of them reports the end. A record qualifies
  by the comparison of \<^verbatim>\<open>Before\<close> and by the filter: in the example the line of the last
  \<^verbatim>\<open>int64\<close> count does not, and the record at position 1 is the one of the third line.
\<close>

theorem query_pagination:
  assumes "healthy w" and "\<not> writer (mutex db)"
    and "fits maxCapacity (all_bytes db w tbl st en)"
    and "0 \<le> off" and "0 < sz" and "off + sz < 2 ^ 63"
    and "nat (off + sz) \<le> length (filter (keep st flt) (split_lines (all_bytes db w tbl st en)))"
    and "nat sz < k"
    and ost: "ordinary st" and oen: "ordinary en"
  shows "\<exists>s'. scan_loop k db w (SetFilter (Query tbl st en off sz) flt)
           = Some (map data_of (take (nat sz) (drop (nat off)
                     (filter (keep st flt) (split_lines (all_bytes db w tbl st en))))), True, s')
         \<and> length (take (nat sz) (drop (nat off)
                     (filter (keep st flt) (split_lines (all_bytes db w tbl st en))))) = nat sz"
proof -
  let ?q = "filter (keep st flt) (split_lines (all_bytes db w tbl st en))"
  have lim: "int64 (off + sz) = off + sz" using assms(4,5,6) by (simp add: int64_id)
  have "emit st flt off (off + sz) 0 (split_lines (all_bytes db w tbl st en))
      = drop (nat (off - 0)) (take (nat (off + sz - 0)) ?q)"
    using assms(4,5,6) by (intro emit_limited) simp_all
  also have "\<dots> = take (nat sz) (drop (nat off) ?q)"
    using assms(4,5) by (simp add: drop_take nat_add_distrib)
  finally have em: "emit st flt off (int64 (off + sz)) 0 (split_lines (all_bytes db w tbl st en))
      = take (nat sz) (drop (nat off) ?q)"
    by (simp only: lim)
  have len: "length (take (nat sz) (drop (nat off) ?q)) = nat sz"
    using assms(4,5,7) by (simp add: nat_add_distrib)
  from query_scan [OF assms(1,2) ost oen assms(3), of flt off sz k] assms(8) len show ?thesis
    unfolding em by auto
qed

theorem query_pagination_witness:
  "\<exists>s'. scan_loop 3 (New ''data'') w_far (SetFilter (Query ''logs'' 0 0 1 1) [])
     = Some ([\<lparr>Time = 20, Text = '' b''\<rparr>], True, s')"
proof -
  have r: "(0::int) \<le> 1" "(0::int) < 1" "(1::int) + 1 < 2 ^ 63" by simp_all
  have n: "nat (1 + 1) \<le> length (filter (keep 0 []) (split_lines (all_bytes (New ''data'') w_far ''logs'' 0 0)))"
    unfolding w_far_quals by simp
  have k: "nat 1 < (3::nat)" by simp
  have d: "map data_of (take (nat 1) (drop (nat 1) [''10 a'', ''20 b''])) = [\<lparr>Time = 20, Text = '' b''\<rparr>]"
    by (simp add: keep_eval)
  from query_pagination [OF w_far_healthy w_far_split(2) r n k ordinary_0 ordinary_0] show ?thesis
    unfolding w_far_quals d by blast
qed

lemma SetFilter_Nil: "SetFilter (Query tbl st en off sz) [] = Query tbl st en off sz"
  by (simp add: SetFilter_def Query_def db_reader_def)

lemma next_line_terminated:
  "CHR 0x0A \<notin> set line \<Longrightarrow> next_line (line @ CHR 0x0A # rest) = (line, rest)"
  using IndexByte_first [of "CHR 0x0A" line rest] by (simp add: next_line_def)

lemma split_lines_terminated:
  "CHR 0x0A \<notin> set line \<Longrightarrow> split_lines (line @ CHR 0x0A # rest) = dropCR line # split_lines rest"
  by (subst split_lines.simps) (simp add: next_line_terminated)

lemma fits_terminated:
  "CHR 0x0A \<notin> set line \<Longrightarrow> fits cap (line @ CHR 0x0A # rest) = (length line < cap \<and> fits cap rest)"
  by (subst fits.simps) (simp add: next_line_terminated)

definition line_of :: "Time \<Rightarrow> string \<Rightarrow> string" where
  "line_of t s = fmt_d (Unix t) @ CHR '' '' # s"

definition valid_text :: "string \<Rightarrow> bool" where
  "valid_text s = (CHR 0x0A \<notin> set s \<and> (s = [] \<or> last s \<noteq> CHR 0x0D))"

lemma encode_line_of: "encode t s = line_of t s @ CHR 0x0A # []"
  by (simp add: encode_def line_of_def)

lemma line_of_no_newline: "valid_text s \<Longrightarrow> CHR 0x0A \<notin> set (line_of t s)"
  using fmt_d_chars by (auto simp: line_of_def valid_text_def)

lemma dropCR_line_of: "valid_text s \<Longrightarrow> dropCR (line_of t s) = line_of t s"
  by (auto simp: line_of_def valid_text_def dropCR_def)

lemma decode_line_of:
  "- (2 ^ 63) \<le> Unix t \<Longrightarrow> Unix t < 2 ^ 63 \<Longrightarrow>
     decode (line_of t s) = Inr \<lparr>Time = t, Text = CHR '' '' # s\<rparr>"
  using decode_line [of "Unix t" s] by (simp add: line_of_def time_Unix_def Unix_def)

lemma split_lines_encode:
  "valid_text s \<Longrightarrow> split_lines (encode t s @ rest) = line_of t s # split_lines rest"
  by (simp add: encode_line_of split_lines_terminated line_of_no_newline dropCR_line_of)

lemma fits_encode:
  "valid_text s \<Longrightarrow> fits cap (encode t s @ rest) = (length (line_of t s) < cap \<and> fits cap rest)"
  by (simp add: encode_line_of fits_terminated line_of_no_newline)

lemma keep_line_of:
  "- (2 ^ 63) \<le> Unix t \<Longrightarrow> Unix t < 2 ^ 63 \<Longrightarrow>
     keep st flt (line_of t s) = (\<not> Before t st \<and> (flt = [] \<or> Contains (line_of t s) flt))"
  by (simp add: keep_def data_of_def decode_line_of)

lemma keep_undecodable:
  "decode l = Inl e \<Longrightarrow> Before zeroTime st \<Longrightarrow> \<not> keep st flt l"
  by (simp add: keep_def data_of_def zeroDataPoint_def)

text \<open>
  Claim C6 as amended. Where the start of the query is an ordinary instant after Go's
  zero instant (year 1) and the end is ordinary, a scan over a partition holding one
  undecodable line between two valid records (each not before the start, by the
  comparison of \<^verbatim>\<open>Before\<close>) yields the two records in order, reports the end at the
  third call, and leaves the decode error of the line in the sticky error.
\<close>

theorem malformed_line_skipped:
  assumes "healthy w" and "\<not> writer (mutex db)" and "Before zeroTime st"
    and "all_bytes db w tbl st en = encode t1 s1 @ bad @ [CHR 0x0A] @ encode t2 s2"
    and "- (2 ^ 63) \<le> Unix t1" and "Unix t1 < 2 ^ 63" and "valid_text s1" and "\<not> Before t1 st"
    and "- (2 ^ 63) \<le> Unix t2" and "Unix t2 < 2 ^ 63" and "valid_text s2" and "\<not> Before t2 st"
    and "CHR 0x0A \<notin> set bad" and "decode (dropCR bad) = Inl e"
    and "length (line_of t1 s1) < maxCapacity" and "length bad < maxCapacity"
    and "length (line_of t2 s2) < maxCapacity"
    and "2 < k"
    and ost: "ordinary st" and oen: "ordinary en"
  shows "\<exists>s'. scan_loop k db w (Query tbl st en 0 0)
           = Some ([\<lparr>Time = t1, Text = CHR '' '' # s1\<rparr>, \<lparr>Time = t2, Text = CHR '' '' # s2\<rparr>], True, s')
         \<and> Error s' = Some e"
proof -
  let ?l1 = "line_of t1 s1" and ?l2 = "line_of t2 s2"
  have sl: "split_lines (all_bytes db w tbl st en) = [?l1, dropCR bad, ?l2]"
    using assms(7,11,13)
    using split_lines_encode [of s2 t2 "[]"]
    by (simp add: assms(4) split_lines_encode split_lines_terminated)
  have ft: "fits maxCapacity (all_bytes db w tbl st en)"
    using assms(7,11,13,15,16,17)
    using fits_encode [of s2 maxCapacity t2 "[]"]
    by (simp add: assms(4) fits_encode fits_terminated)
  have k1: "keep st [] ?l1" using assms(5,6,8) by (simp add: keep_line_of)
  have k2: "keep st [] ?l2" using assms(9,10,12) by (simp add: keep_line_of)
  have kb: "\<not> keep st [] (dropCR bad)" using keep_undecodable [OF assms(14) assms(3)] .
  have i0: "int64 0 = 0" "int64 1 = 1" "int64 2 = 2" by (simp_all add: int64_def)
  have em: "emit st [] 0 (int64 (0 + 0)) 0 (split_lines (all_bytes db w tbl st en)) = [?l1, ?l2]"
    unfolding sl using k1 k2 kb by (simp add: i0)
  have d1: "decode ?l1 = Inr \<lparr>Time = t1, Text = CHR '' '' # s1\<rparr>" using assms(5,6) by (rule decode_line_of)
  have d2: "decode ?l2 = Inr \<lparr>Time = t2, Text = CHR '' '' # s2\<rparr>" using assms(9,10) by (rule decode_line_of)
  have fe: "final_err st [] 0 (int64 (0 + 0)) 0 None (split_lines (all_bytes db w tbl st en)) = Some e"
    unfolding sl using k1 k2 kb by (simp add: i0 err_after_def d1 d2 assms(14))
  have dm: "map data_of [?l1, ?l2]
      = [\<lparr>Time = t1, Text = CHR '' '' # s1\<rparr>, \<lparr>Time = t2, Text = CHR '' '' # s2\<rparr>]"
    by (simp add: data_of_def d1 d2)
  have len: "length (emit st [] 0 (int64 (0 + 0)) 0 (split_lines (all_bytes db w tbl st en))) < k"
    unfolding em using assms(18) by simp
  from query_scan [OF assms(1,2) ost oen ft len] show ?thesis
    unfolding em fe dm SetFilter_Nil .
qed

definition w_bad :: world where
  "w_bad = \<lparr>files = (\<lambda>p. None)(((''data'', 0), ''logs.log'') := Some ''10 a\<newline>garbage\<newline>20 b\<newline>''),
             mkdir_fails = (\<lambda>d. False), open_fails = (\<lambda>p. False), io_fails = (\<lambda>p. False),
             syslog = []\<rparr>"

theorem malformed_line_skipped_witness:
  "\<exists>s'. scan_loop 3 (New ''data'') w_bad (Query ''logs'' 0 0 0 0)
           = Some ([\<lparr>Time = 10, Text = '' a''\<rparr>, \<lparr>Time = 20, Text = '' b''\<rparr>], True, s')
         \<and> Error s' = Some (ErrInvalidLine ''garbage'')"
proof -
  have h: "healthy w_bad" "\<not> writer (mutex (New ''data''))" "Before zeroTime 0"
    by (simp_all add: healthy_def w_bad_def New_def time_eval)
  have b: "all_bytes (New ''data'') w_bad ''logs'' 0 0
      = encode 10 ''a'' @ ''garbage'' @ [CHR 0x0A] @ encode 20 ''b''"
    by (simp add: stream_eval w_bad_def codec_eval)
  have v1: "- (2 ^ 63) \<le> Unix 10" "Unix 10 < 2 ^ 63" "valid_text ''a''" "\<not> Before 10 0"
    by (simp_all add: Unix_def valid_text_def time_eval)
  have v2: "- (2 ^ 63) \<le> Unix 20" "Unix 20 < 2 ^ 63" "valid_text ''b''" "\<not> Before 20 0"
    by (simp_all add: Unix_def valid_text_def time_eval)
  have g: "CHR 0x0A \<notin> set ''garbage''" "decode (dropCR ''garbage'') = Inl (ErrInvalidLine ''garbage'')"
    by (simp_all add: dropCR_def decode_def)
  have l: "length (line_of 10 ''a'') < maxCapacity" "length ''garbage'' < maxCapacity"
    "length (line_of 20 ''b'') < maxCapacity"
    by (simp_all add: line_of_def maxCapacity_def codec_eval)
  have k: "2 < (3::nat)" by simp
  from malformed_line_skipped [OF h b v1 v2 g l k ordinary_0 ordinary_0] show ?thesis by simp
qed

definition w_year1 :: world where
  "w_year1 = \<lparr>files = (\<lambda>p. None)(((''data'', - 719161), ''logs.log'') :=
                 Some ''-62135510400 a\<newline>garbage\<newline>-62135510399 b\<newline>''),
             mkdir_fails = (\<lambda>d. False), open_fails = (\<lambda>p. False), io_fails = (\<lambda>p. False),
             syslog = []\<rparr>"

text \<open>
  Claim C6 says that the undecodable line is treated as arbitrarily early and skipped in
  every scan. \<^verbatim>\<open>Data\<close> returns the zero \<^verbatim>\<open>DataPoint\<close> for it, whose instant is the zero
  \<^verbatim>\<open>time.Time\<close>, and \<^verbatim>\<open>Scan\<close> skips what is before the start: a query that starts at
  the zero instant does not skip the line but yields it as the empty record, between the
  two valid ones.
\<close>

theorem malformed_line_counterexample:
  "(case scan_loop 5 (New ''data'') w_year1 (Query ''logs'' zeroTime (zeroTime + 86400) 0 0) of
      Some (ds, fin, s) \<Rightarrow>
        ds = [\<lparr>Time = - 62135510400, Text = '' a''\<rparr>, \<lparr>Time = zeroTime, Text = []\<rparr>,
              \<lparr>Time = - 62135510399, Text = '' b''\<rparr>] \<and> fin
    | None \<Rightarrow> False)"
proof -
  let ?st = "zeroTime" and ?en = "zeroTime + 86400"
  have h: "healthy w_year1" "\<not> writer (mutex (New ''data''))"
    "ordinary zeroTime" "ordinary (zeroTime + 86400)"
    by (simp_all add: healthy_def w_year1_def New_def ordinary_def zeroTime_def unixToInternal_def)
  have b: "all_bytes (New ''data'') w_year1 ''logs'' ?st ?en
     = ''-62135510400 a\<newline>garbage\<newline>-62135510399 b\<newline>''"
    by (simp add: stream_eval w_year1_def)
  have sl: "split_lines ''-62135510400 a\<newline>garbage\<newline>-62135510399 b\<newline>''
      = [''-62135510400 a'', ''garbage'', ''-62135510399 b'']"
    and ft: "fits maxCapacity ''-62135510400 a\<newline>garbage\<newline>-62135510399 b\<newline>''"
    by (simp_all add: lines_eval)
  have ft': "fits maxCapacity (all_bytes (New ''data'') w_year1 ''logs'' ?st ?en)"
    unfolding b by (rule ft)
  have em: "emit ?st [] 0 (int64 (0 + 0)) 0 (split_lines (all_bytes (New ''data'') w_year1 ''logs'' ?st ?en))
      = [''-62135510400 a'', ''garbage'', ''-62135510399 b'']"
    unfolding b sl by (simp add: keep_eval)
  have dm: "map data_of [''-62135510400 a'', ''garbage'', ''-62135510399 b'']
      = [\<lparr>Time = - 62135510400, Text = '' a''\<rparr>, \<lparr>Time = zeroTime, Text = []\<rparr>,
         \<lparr>Time = - 62135510399, Text = '' b''\<rparr>]"
    by (simp add: keep_eval)
  have len: "length (emit ?st [] 0 (int64 (0 + 0)) 0
      (split_lines (all_bytes (New ''data'') w_year1 ''logs'' ?st ?en))) < 5"
    unfolding em by simp
  from query_scan [OF h ft' len] obtain s' where
    "scan_loop 5 (New ''data'') w_year1 (SetFilter (Query ''logs'' ?st ?en 0 0) [])
      = Some (map data_of (emit ?st [] 0 (int64 (0 + 0)) 0
           (split_lines (all_bytes (New ''data'') w_year1 ''logs'' ?st ?en))), True, s')"
    by blast
  then show ?thesis unfolding em dm SetFilter_Nil by simp
qed










section \<open>The days of a range\<close>
































end
